theory Spec2Isabelle
  imports Main "HOL-Library.Word"
begin

unbundle bit_operations_syntax

section \<open>Data model of sound/pci/hda/hda_intel.c\<close>

text \<open>
  Machine integers: \<open>u32\<close>/\<open>unsigned int\<close> are \<open>32 word\<close>, \<open>unsigned short\<close> is
  \<open>16 word\<close>, a byte is \<open>8 word\<close>.  \<open>unsigned long\<close> (the wall-clock fields of
  \<open>struct azx_dev\<close>) is 32 bits wide on the ARM target this tree is built for and is
  modelled as \<open>32 word\<close>.  Signed \<open>int\<close> quantities that only carry small status codes
  or byte offsets bounded by the buffer size are \<open>int\<close>.
\<close>

type_synonym u8 = "8 word"
type_synonym u16 = "16 word"
type_synonym u32 = "32 word"

text \<open>A NULL pointer dereference and an integer division by zero are faults of the C code.\<close>

datatype fault = NullDeref | DivByZero

text \<open>The stream direction: \<open>SNDRV_PCM_STREAM_PLAYBACK = 0\<close>, \<open>SNDRV_PCM_STREAM_CAPTURE = 1\<close>.\<close>

datatype pcm_stream = SNDRV_PCM_STREAM_PLAYBACK | SNDRV_PCM_STREAM_CAPTURE

text \<open>The position fix mode enum.\<close>

datatype pos_fix = POS_FIX_AUTO | POS_FIX_LPIB | POS_FIX_POSBUF | POS_FIX_VIACOMBO | POS_FIX_COMBO

text \<open>
  \<open>struct azx_dev\<close>: the fields the modelled functions read or write.  \<open>substream\<close> is
  the pointer to the assigned substream (\<open>None\<close> is NULL); of the substream only its
  direction \<open>substream->stream\<close> is used.
\<close>

record azx_dev =
  bufsize :: u32
  period_bytes :: u32
  frags :: u32
  fifo_size :: u32
  start_wallclk :: u32
  period_wallclk :: u32
  sd_int_sta_mask :: u32
  substream :: "pcm_stream option"
  format_val :: u32
  running :: bool
  irq_pending :: bool
  insufficient :: bool

text \<open>
  The values the hardware presents to one call: the wall clock register, the stream's link
  position register \<open>SD_LPIB\<close>, the stream's cell of the DMA position buffer
  (\<open>*azx_dev->posbuf\<close>) and the VIA input FIFO size register.
\<close>

record hw_regs =
  WALLCLK :: u32
  SD_LPIB :: u32
  posbuf :: u32
  VIA_IN_STREAM0_FIFO_SIZE :: u16

text \<open>
  The part of \<open>struct azx\<close> used by the position code: \<open>position_fix[2]\<close>, indexed by the
  stream direction, and \<open>bdl_pos_adj[chip->dev_index]\<close>, the module parameter entry of this
  chip.
\<close>

record azx_pos =
  position_fix :: "pcm_stream \<Rightarrow> pos_fix"
  bdl_pos_adj :: int

section \<open>Reading the DMA position\<close>

definition azx_via_get_position :: "azx_dev \<Rightarrow> pcm_stream \<Rightarrow> hw_regs \<Rightarrow> fault + (azx_dev \<times> u32)" where
  "azx_via_get_position azx_dev stream hw =
    (let link_pos = SD_LPIB hw in
     if stream = SNDRV_PCM_STREAM_PLAYBACK then Inr (azx_dev, link_pos)
     else if period_bytes azx_dev = 0 then Inl DivByZero
     else
       let mod_dma_pos = posbuf hw mod period_bytes azx_dev;
           fifo_size = (ucast (VIA_IN_STREAM0_FIFO_SIZE hw) :: u32) in
       if insufficient azx_dev \<and> link_pos \<le> fifo_size then Inr (azx_dev, 0)
       else
         let azx_dev1 = (if insufficient azx_dev then azx_dev\<lparr>insufficient := False\<rparr> else azx_dev);
             mini_pos = (if link_pos \<le> fifo_size
                         then bufsize azx_dev1 + link_pos - fifo_size
                         else link_pos - fifo_size);
             mod_mini_pos = mini_pos mod period_bytes azx_dev1;
             mod_link_pos = link_pos mod period_bytes azx_dev1;
             bound_pos =
               (if mod_link_pos \<ge> fifo_size then link_pos - mod_link_pos
                else if mod_dma_pos \<ge> mod_mini_pos then mini_pos - mod_mini_pos
                else
                  let b = mini_pos - mod_mini_pos + period_bytes azx_dev1 in
                  if b \<ge> bufsize azx_dev1 then 0 else b)
         in Inr (azx_dev1, bound_pos + mod_dma_pos))"

definition azx_get_position :: "azx_pos \<Rightarrow> azx_dev \<Rightarrow> hw_regs \<Rightarrow> bool \<Rightarrow> fault + (azx_pos \<times> azx_dev \<times> u32)" where
  "azx_get_position chip azx_dev hw with_check =
    (case substream azx_dev of
       None \<Rightarrow> Inl NullDeref
     | Some stream \<Rightarrow>
        (let r =
           (case position_fix chip stream of
              POS_FIX_LPIB \<Rightarrow> Inr (chip, azx_dev, SD_LPIB hw)
            | POS_FIX_VIACOMBO \<Rightarrow>
                (case azx_via_get_position azx_dev stream hw of
                   Inl f \<Rightarrow> Inl f
                 | Inr (azx_dev1, pos) \<Rightarrow> Inr (chip, azx_dev1, pos))
            | _ \<Rightarrow>
                (let pos = posbuf hw in
                 if with_check \<and> position_fix chip stream = POS_FIX_AUTO then
                   (if pos = 0 \<or> pos = - 1
                    then Inr (chip\<lparr>position_fix := (position_fix chip)(stream := POS_FIX_LPIB)\<rparr>,
                              azx_dev, SD_LPIB hw)
                    else Inr (chip\<lparr>position_fix := (position_fix chip)(stream := POS_FIX_POSBUF)\<rparr>,
                              azx_dev, pos))
                 else Inr (chip, azx_dev, pos)))
         in case r of
              Inl f \<Rightarrow> Inl f
            | Inr (chip1, azx_dev1, pos) \<Rightarrow>
                Inr (chip1, azx_dev1, if pos \<ge> bufsize azx_dev1 then 0 else pos)))"

section \<open>Validating a period interrupt\<close>

text \<open>
  \<open>azx_position_ok\<close> returns 1 (accept), 0 (not yet: process later) or -1 (bogus, too
  early), together with the updated chip and stream.
\<close>

definition azx_position_ok :: "azx_pos \<Rightarrow> azx_dev \<Rightarrow> hw_regs \<Rightarrow> fault + (azx_pos \<times> azx_dev \<times> int)" where
  "azx_position_ok chip azx_dev hw =
    (let wallclk = WALLCLK hw - start_wallclk azx_dev in
     if wallclk < (period_wallclk azx_dev * 2) div 3 then Inr (chip, azx_dev, - 1)
     else
       (case azx_get_position chip azx_dev hw True of
          Inl f \<Rightarrow> Inl f
        | Inr (chip1, azx_dev1, pos) \<Rightarrow>
            if period_bytes azx_dev1 = 0 then Inr (chip1, azx_dev1, - 1)
            else if wallclk < (period_wallclk azx_dev1 * 5) div 4 \<and>
                    pos mod period_bytes azx_dev1 > period_bytes azx_dev1 div 2
            then Inr (chip1, azx_dev1, if bdl_pos_adj chip1 \<noteq> 0 then 0 else - 1)
            else Inr (chip1, azx_dev1\<lparr>start_wallclk := start_wallclk azx_dev1 + wallclk\<rparr>, 1)))"

text \<open>
  The body of the stream loop of \<open>azx_interrupt\<close> for one stream.  \<open>status\<close> is the value
  read from \<open>INTSTS\<close>, \<open>sd_status\<close> the value read from the stream's \<open>SD_STS\<close>, \<open>workq\<close>
  says whether \<open>chip->bus && chip->bus->workq\<close> holds.  The result carries two flags:
  whether \<open>snd_pcm_period_elapsed\<close> was called and whether \<open>irq_pending_work\<close> was queued.
\<close>

definition SD_INT_COMPLETE :: u8 where
  "SD_INT_COMPLETE = 0x04"

definition azx_interrupt_stream ::
  "azx_pos \<Rightarrow> azx_dev \<Rightarrow> hw_regs \<Rightarrow> u32 \<Rightarrow> u8 \<Rightarrow> bool \<Rightarrow> fault + (azx_pos \<times> azx_dev \<times> bool \<times> bool)" where
  "azx_interrupt_stream chip azx_dev hw status sd_status workq =
    (if status AND sd_int_sta_mask azx_dev \<noteq> 0 then
       (if substream azx_dev = None \<or> \<not> running azx_dev \<or> sd_status AND SD_INT_COMPLETE = 0
        then Inr (chip, azx_dev, False, False)
        else
          (case azx_position_ok chip azx_dev hw of
             Inl f \<Rightarrow> Inl f
           | Inr (chip1, azx_dev1, ok) \<Rightarrow>
               if ok = 1 then Inr (chip1, azx_dev1\<lparr>irq_pending := False\<rparr>, True, False)
               else if ok = 0 \<and> workq then Inr (chip1, azx_dev1\<lparr>irq_pending := True\<rparr>, False, True)
               else Inr (chip1, azx_dev1, False, False)))
     else Inr (chip, azx_dev, False, False))"

section \<open>Building the descriptor list and preparing a stream\<close>

text \<open>
  One entry of the buffer descriptor list: address, length and the interrupt-on-completion
  flag.  The list written by \<open>azx_setup_periods\<close> is the sequence of entries from the start of
  the BDL area.
\<close>

record bdl_entry =
  bdle_addr :: nat
  bdle_size :: int
  bdle_ioc :: bool

text \<open>
  What the code uses of \<open>struct snd_pcm_substream\<close> and its runtime.  The scatter-gather
  helpers \<open>snd_pcm_sgbuf_get_addr\<close> and \<open>snd_pcm_sgbuf_get_chunk_size\<close> and
  \<open>frames_to_bytes\<close> belong to the PCM core and are taken as given functions;
  \<open>lib_buffer_bytes\<close> and \<open>lib_period_bytes\<close> are the values of
  \<open>snd_pcm_lib_buffer_bytes\<close> and \<open>snd_pcm_lib_period_bytes\<close>.
\<close>

record pcm_substream =
  sgbuf_get_addr :: "int \<Rightarrow> nat"
  sgbuf_get_chunk_size :: "int \<Rightarrow> int \<Rightarrow> int"
  frames_to_bytes :: "int \<Rightarrow> int"
  rt_rate :: u32
  rt_period_size :: u32
  rt_no_period_wakeup :: bool
  lib_buffer_bytes :: u32
  lib_period_bytes :: u32
  pcm_direction :: pcm_stream

definition AZX_MAX_BDL_ENTRIES :: u32 where
  "AZX_MAX_BDL_ENTRIES = 4096 div 16"

definition EINVAL :: int where
  "EINVAL = 22"

text \<open>
  \<open>setup_bdle\<close>: the \<open>while (size > 0)\<close> loop.  The result is the updated stream
  (\<open>frags\<close>), the descriptor list and the returned offset or \<open>-EINVAL\<close>.  The byte
  offsets are \<open>int\<close>s bounded by the buffer size and are modelled as \<open>int\<close>.
\<close>

function setup_bdle ::
  "pcm_substream \<Rightarrow> azx_dev \<Rightarrow> bdl_entry list \<Rightarrow> int \<Rightarrow> int \<Rightarrow> bool \<Rightarrow> azx_dev \<times> bdl_entry list \<times> int" where
  "setup_bdle ss azx_dev bdl ofs sz with_ioc =
    (if sz > 0 then
       (if frags azx_dev \<ge> AZX_MAX_BDL_ENTRIES then (azx_dev, bdl, - EINVAL)
        else
          let addr = sgbuf_get_addr ss ofs;
              chunk = sgbuf_get_chunk_size ss ofs sz;
              size1 = sz - chunk;
              e = \<lparr>bdle_addr = addr, bdle_size = chunk, bdle_ioc = \<not> (size1 \<noteq> 0 \<or> \<not> with_ioc)\<rparr>
          in setup_bdle ss (azx_dev\<lparr>frags := frags azx_dev + 1\<rparr>) (bdl @ [e])
               (ofs + chunk) size1 with_ioc)
     else (azx_dev, bdl, ofs))"
  by pat_completeness auto
termination
proof (relation "measure (\<lambda>(ss, azx_dev, bdl, ofs, sz, with_ioc). 256 - unat (frags azx_dev))")
  show "wf (measure (\<lambda>(ss, azx_dev, bdl, ofs, sz, with_ioc). 256 - unat (frags azx_dev)))"
    by simp
next
  fix ss :: pcm_substream and azx_dev :: azx_dev and bdl :: "bdl_entry list"
    and ofs sz :: int and with_ioc :: bool and x xa xb xc
  assume "\<not> AZX_MAX_BDL_ENTRIES \<le> frags azx_dev"
  then have lt: "unat (frags azx_dev) < 256"
    by (simp add: AZX_MAX_BDL_ENTRIES_def word_le_nat_alt)
  then have "unat (frags azx_dev + 1) = unat (frags azx_dev) + 1"
    by (simp add: unat_word_ariths)
  with lt show "((ss, azx_dev\<lparr>frags := frags azx_dev + 1\<rparr>, bdl @ [xc], ofs + xa, xb, with_ioc),
          (ss, azx_dev, bdl, ofs, sz, with_ioc))
         \<in> measure (\<lambda>(ss, azx_dev, bdl, ofs, sz, with_ioc). 256 - unat (frags azx_dev))"
    by simp
qed

declare setup_bdle.simps [simp del]

text \<open>The \<open>for (i = 0; i < periods; i++)\<close> loop of \<open>azx_setup_periods\<close>.\<close>

function setup_periods_loop ::
  "pcm_substream \<Rightarrow> int \<Rightarrow> int \<Rightarrow> int \<Rightarrow> int \<Rightarrow> azx_dev \<Rightarrow> bdl_entry list \<Rightarrow> int
     \<Rightarrow> azx_dev \<times> bdl_entry list \<times> int" where
  "setup_periods_loop ss pbytes pos_adj periods i azx_dev bdl ofs =
    (if i < periods then
       (case (if i = periods - 1 \<and> pos_adj \<noteq> 0
              then setup_bdle ss azx_dev bdl ofs (pbytes - pos_adj) False
              else setup_bdle ss azx_dev bdl ofs pbytes (\<not> rt_no_period_wakeup ss)) of
          (azx_dev1, bdl1, ofs1) \<Rightarrow>
            if ofs1 < 0 then (azx_dev1, bdl1, - EINVAL)
            else setup_periods_loop ss pbytes pos_adj periods (i + 1) azx_dev1 bdl1 ofs1)
     else (azx_dev, bdl, 0))"
  by pat_completeness auto
termination
  by (relation "measure (\<lambda>(ss, pbytes, pos_adj, periods, i, azx_dev, bdl, ofs). nat (periods - i))") auto

declare setup_periods_loop.simps [simp del]

text \<open>
  C arithmetic on \<open>int\<close>: a result is brought back into the 32-bit two's complement
  range (the kernel is built with wrapping signed overflow), and \<open>/\<close> truncates towards
  zero.
\<close>

definition wrap_int :: "int \<Rightarrow> int" where
  "wrap_int x = (x + 2 ^ 31) mod 2 ^ 32 - 2 ^ 31"

definition c_div :: "int \<Rightarrow> int \<Rightarrow> int" where
  "c_div a b = sgn a * sgn b * (\<bar>a\<bar> div \<bar>b\<bar>)"

text \<open>
  The position adjustment in bytes, computed from \<open>bdl_pos_adj\<close> when it is positive
  (before the comparison with the period size).  \<open>pos_adj * runtime->rate + 47999\<close> is
  an \<open>int\<close> times an \<open>unsigned int\<close>: it is computed and divided in unsigned 32-bit
  arithmetic and wraps; the rounding up to a multiple of \<open>pos_align\<close> is \<open>int\<close>
  arithmetic.
\<close>

definition pos_adj_bytes :: "int \<Rightarrow> pcm_substream \<Rightarrow> int" where
  "pos_adj_bytes pos_adj ss =
    (let pos_align = pos_adj;
         a = wrap_int (((pos_adj * uint (rt_rate ss) + 47999) mod 2 ^ 32) div 48000);
         b = (if a = 0 then pos_align
              else wrap_int (c_div (wrap_int (a + pos_align - 1)) pos_align * pos_align))
     in frames_to_bytes ss b)"

definition azx_setup_periods ::
  "azx_pos \<Rightarrow> pcm_substream \<Rightarrow> azx_dev \<Rightarrow> fault + (azx_dev \<times> bdl_entry list \<times> int)" where
  "azx_setup_periods chip ss azx_dev =
    (if period_bytes azx_dev = 0 then Inl DivByZero
     else
       let pbytes = sint (period_bytes azx_dev);
           periods = sint (bufsize azx_dev div period_bytes azx_dev);
           azx_dev0 = azx_dev\<lparr>frags := 0\<rparr>
       in
         if bdl_pos_adj chip > 0 then
           (let pos_adj = pos_adj_bytes (bdl_pos_adj chip) ss in
            if pos_adj \<ge> pbytes
            then Inr (setup_periods_loop ss pbytes 0 periods 0 azx_dev0 [] 0)
            else
              (case setup_bdle ss azx_dev0 [] 0 pos_adj (\<not> rt_no_period_wakeup ss) of
                 (azx_dev1, bdl1, ofs1) \<Rightarrow>
                   if ofs1 < 0 then Inr (azx_dev1, bdl1, - EINVAL)
                   else Inr (setup_periods_loop ss pbytes pos_adj periods 0 azx_dev1 bdl1 ofs1)))
         else Inr (setup_periods_loop ss pbytes 0 periods 0 azx_dev0 [] 0))"

text \<open>
  \<open>azx_pcm_prepare\<close>.  \<open>fmt\<close> is the value of \<open>snd_hda_calc_stream_format\<close>,
  \<open>sd_fifosize\<close> the value read from \<open>SD_FIFOSIZE\<close> and \<open>codec_prepare\<close> the
  return value of \<open>snd_hda_codec_prepare\<close>.  The writes to the stream descriptor
  registers (\<open>azx_stream_reset\<close>, \<open>azx_setup_controller\<close>) touch no field of
  \<open>struct azx_dev\<close> and are left out.
\<close>

definition azx_pcm_prepare ::
  "azx_pos \<Rightarrow> pcm_substream \<Rightarrow> azx_dev \<Rightarrow> bdl_entry list \<Rightarrow> u32 \<Rightarrow> u16 \<Rightarrow> int
     \<Rightarrow> fault + (azx_dev \<times> bdl_entry list \<times> int)" where
  "azx_pcm_prepare chip ss azx_dev bdl fmt sd_fifosize codec_prepare =
    (if fmt = 0 then Inr (azx_dev, bdl, - EINVAL)
     else
       let finish = (\<lambda>d b.
             if rt_rate ss = 0 then Inl DivByZero
             else Inr (d\<lparr>period_wallclk := ((rt_period_size ss * 24000) div rt_rate ss) * 1000,
                         fifo_size := (if pcm_direction ss = SNDRV_PCM_STREAM_PLAYBACK
                                       then ucast sd_fifosize + 1 else 0)\<rparr>,
                       b, codec_prepare))
       in
         if lib_buffer_bytes ss \<noteq> bufsize azx_dev \<or> lib_period_bytes ss \<noteq> period_bytes azx_dev \<or>
            fmt \<noteq> format_val azx_dev
         then
           (case azx_setup_periods chip ss
                   (azx_dev\<lparr>bufsize := lib_buffer_bytes ss, period_bytes := lib_period_bytes ss,
                             format_val := fmt\<rparr>) of
              Inl f \<Rightarrow> Inl f
            | Inr (azx_dev1, bdl1, err) \<Rightarrow>
                if err < 0 then Inr (azx_dev1, bdl1, err) else finish azx_dev1 bdl1)
         else finish azx_dev bdl)"

text \<open>
  \<open>azx_pcm_hw_params\<close> clears the stored geometry and format before allocating the buffer;
  \<open>malloc_ret\<close> is the return value of \<open>snd_pcm_lib_malloc_pages\<close>.
  \<open>azx_pcm_hw_free\<close> clears the same three fields.
\<close>

definition azx_pcm_hw_params :: "azx_dev \<Rightarrow> int \<Rightarrow> azx_dev \<times> int" where
  "azx_pcm_hw_params azx_dev malloc_ret =
     (azx_dev\<lparr>bufsize := 0, period_bytes := 0, format_val := 0\<rparr>, malloc_ret)"

definition azx_pcm_hw_free :: "azx_dev \<Rightarrow> int \<Rightarrow> azx_dev \<times> int" where
  "azx_pcm_hw_free azx_dev free_ret =
     (azx_dev\<lparr>bufsize := 0, period_bytes := 0, format_val := 0\<rparr>, free_ret)"

section \<open>Sequences of checked position reads\<close>

text \<open>
  The chip states after each of a sequence of \<open>azx_get_position(chip, azx_dev, true)\<close>
  calls; the sequence stops at a fault.
\<close>

fun checked_reads :: "azx_pos \<Rightarrow> azx_dev \<Rightarrow> hw_regs list \<Rightarrow> azx_pos list" where
  "checked_reads chip azx_dev [] = []"
| "checked_reads chip azx_dev (hw # hws) =
     (case azx_get_position chip azx_dev hw True of
        Inl f \<Rightarrow> []
      | Inr (chip1, azx_dev1, pos) \<Rightarrow> chip1 # checked_reads chip1 azx_dev1 hws)"

text \<open>
  The mode the claim expects auto-detection to commit to: the hardware pointer when the
  position buffer reads zero or all-ones, the position buffer otherwise.
\<close>

definition autodetect_choice :: "hw_regs \<Rightarrow> pos_fix" where
  "autodetect_choice hw = (if posbuf hw = 0 \<or> posbuf hw = - 1 then POS_FIX_LPIB else POS_FIX_POSBUF)"

section \<open>The command ring (CORB/RIRB)\<close>

text \<open>
  The fields of \<open>struct hda_bus\<close> that the controller code reads or writes.  The queue of
  unsolicited events filled by \<open>snd_hda_queue_unsol_event\<close> is kept as a list of
  \<open>(res, res_ex)\<close> pairs.
\<close>

record hda_bus =
  rirb_error :: bool
  allow_bus_reset :: bool
  response_reset :: bool
  in_reset :: bool
  unsol_queue :: "(u32 \<times> u32) list"

text \<open>
  The command part of \<open>struct azx\<close>.  \<open>corb_buf\<close> and \<open>rirb_buf\<close> are the two DMA
  buffers \<open>chip->corb.buf\<close> and \<open>chip->rirb.buf\<close>, indexed by 32-bit word;
  \<open>rirb_rp\<close>, \<open>rirb_wp\<close>, \<open>rirb_cmds\<close>, \<open>rirb_res\<close> are the fields of
  \<open>chip->rirb\<close>.  The \<open>int\<close> counters \<open>cmds[]\<close> are 32-bit words: the code only
  increments, decrements and tests them for zero.  The arrays of \<open>AZX_MAX_CODECS\<close>
  entries are functions of the index.  The upper-case fields are the controller registers
  of the same name, holding what was last written by the driver or by the hardware;
  \<open>spurious\<close> collects the \<open>(res, res_ex)\<close> pairs reported by the "spurious response"
  message.
\<close>

record azx =
  corb_buf :: "nat \<Rightarrow> u32"
  rirb_buf :: "nat \<Rightarrow> u32"
  rirb_rp :: u16
  rirb_wp :: u16
  rirb_cmds :: "nat \<Rightarrow> u32"
  rirb_res :: "nat \<Rightarrow> u32"
  last_cmd :: "nat \<Rightarrow> u32"
  poll_count :: int
  single_cmd :: bool
  polling_mode :: bool
  msi :: bool
  probing :: bool
  irq :: int
  irq_id :: int
  CORBWP :: u16
  CORBCTL :: u8
  RIRBWP :: u16
  RIRBCTL :: u8
  GCTL :: u32
  IC :: u32
  IRS :: u16
  spurious :: "(u32 \<times> u32) list"
  bus :: hda_bus

definition AZX_MAX_CODECS :: nat where
  "AZX_MAX_CODECS = 8"

definition ICH6_MAX_CORB_ENTRIES :: nat where
  "ICH6_MAX_CORB_ENTRIES = 256"

definition ICH6_MAX_RIRB_ENTRIES :: u16 where
  "ICH6_MAX_RIRB_ENTRIES = 256"

definition ICH6_RIRB_EX_UNSOL_EV :: u32 where
  "ICH6_RIRB_EX_UNSOL_EV = push_bit 4 1"

definition ICH6_GCTL_UNSOL :: u32 where
  "ICH6_GCTL_UNSOL = push_bit 8 1"




text \<open>\<open>azx_readb\<close> of a 16-bit register: its low byte.\<close>

definition azx_readb :: "u16 \<Rightarrow> u8" where
  "azx_readb r = ucast r"

definition azx_init_cmd_io :: "azx \<Rightarrow> azx" where
  "azx_init_cmd_io chip =
     chip\<lparr>CORBWP := 0, CORBCTL := 0x02,
          rirb_wp := 0, rirb_rp := 0, rirb_cmds := (\<lambda>_. 0),
          RIRBWP := 0, RIRBCTL := 0x03\<rparr>"

definition azx_free_cmd_io :: "azx \<Rightarrow> azx" where
  "azx_free_cmd_io chip = chip\<lparr>RIRBCTL := 0, CORBCTL := 0\<rparr>"

definition azx_command_addr :: "u32 \<Rightarrow> nat" where
  "azx_command_addr cmd =
     (let addr = unat (drop_bit 28 cmd) in if addr \<ge> AZX_MAX_CODECS then 0 else addr)"

definition azx_response_addr :: "u32 \<Rightarrow> nat" where
  "azx_response_addr r =
     (let addr = unat (r AND 0xf) in if addr \<ge> AZX_MAX_CODECS then 0 else addr)"

text \<open>
  \<open>azx_corb_send_cmd\<close> always returns 0; the model returns the new chip state.  The local
  \<open>unsigned int wp\<close> holds a byte plus one and cannot overflow; it is a \<open>nat\<close>.
\<close>

definition azx_corb_send_cmd :: "azx \<Rightarrow> u32 \<Rightarrow> azx" where
  "azx_corb_send_cmd chip val =
     (let addr = azx_command_addr val;
          wp0 = unat (azx_readb (CORBWP chip));
          wp = (wp0 + 1) mod ICH6_MAX_CORB_ENTRIES
      in chip\<lparr>rirb_cmds := (rirb_cmds chip)(addr := rirb_cmds chip addr + 1),
              corb_buf := (corb_buf chip)(wp := val),
              CORBWP := of_nat wp\<rparr>)"

text \<open>
  One pass of the \<open>while (chip->rirb.rp != wp)\<close> loop of \<open>azx_update_rirb\<close>: advance
  the read pointer and handle the entry it now points to.  The local \<open>rp\<close> is the read
  pointer shifted left by one, an index below 512.
\<close>

definition rirb_entry :: "azx \<Rightarrow> azx" where
  "rirb_entry chip =
     (let rp1 = (rirb_rp chip + 1) mod ICH6_MAX_RIRB_ENTRIES;
          chip1 = chip\<lparr>rirb_rp := rp1\<rparr>;
          rp = 2 * unat rp1;
          res_ex = rirb_buf chip1 (rp + 1);
          r = rirb_buf chip1 rp;
          addr = azx_response_addr res_ex
      in if res_ex AND ICH6_RIRB_EX_UNSOL_EV \<noteq> 0
         then chip1\<lparr>bus := (bus chip1)\<lparr>unsol_queue := unsol_queue (bus chip1) @ [(r, res_ex)]\<rparr>\<rparr>
         else if rirb_cmds chip1 addr \<noteq> 0
         then chip1\<lparr>rirb_res := (rirb_res chip1)(addr := r),
                    rirb_cmds := (rirb_cmds chip1)(addr := rirb_cmds chip1 addr - 1)\<rparr>
         else chip1\<lparr>spurious := spurious chip1 @ [(r, res_ex)]\<rparr>)"

text \<open>
  The loop itself.  \<open>wp\<close> is the byte read from \<open>RIRBWP\<close>; the comparison is between
  the promoted integer values.
\<close>

function rirb_drain :: "u8 \<Rightarrow> azx \<Rightarrow> azx" where
  "rirb_drain wp chip =
     (if unat (rirb_rp chip) \<noteq> unat wp then rirb_drain wp (rirb_entry chip) else chip)"
  by pat_completeness auto

lemma unat_rirb_rp_next:
  "unat ((rp + 1) mod ICH6_MAX_RIRB_ENTRIES :: u16) = (unat rp + 1) mod 256"
proof -
  have "unat ((rp + 1) mod 256 :: u16) = ((unat rp + 1) mod 65536) mod 256"
    by (simp add: unat_mod unat_word_ariths)
  also have "\<dots> = (unat rp + 1) mod 256"
    by (simp add: mod_mod_cancel)
  finally show ?thesis by (simp add: ICH6_MAX_RIRB_ENTRIES_def)
qed

lemma rirb_rp_rirb_entry: "unat (rirb_rp (rirb_entry chip)) = (unat (rirb_rp chip) + 1) mod 256"
  by (simp add: rirb_entry_def Let_def unat_rirb_rp_next)

lemma unat_u8_lt: "unat (w :: u8) < 256"
  using unsigned_less[of w, where ?'a = nat] by simp

lemma drain_measure:
  fixes w r :: nat
  assumes "w < 256" "r < 256" "r \<noteq> w"
  shows "(256 + w - (r + 1) mod 256) mod 256 < (256 + w - r) mod 256"
proof (cases "r < w")
  case True
  then have a: "(r + 1) mod 256 = r + 1" using assms by simp
  have b: "(256 + w - (r + 1)) mod 256 = w - (r + 1)"
    using True assms by (simp add: mod_if)
  have c: "(256 + w - r) mod 256 = w - r"
    using True assms by (simp add: mod_if)
  show ?thesis unfolding a b c using True by simp
next
  case False
  with assms have gt: "w < r" by simp
  have c: "(256 + w - r) mod 256 = 256 + w - r"
    using gt assms by simp
  show ?thesis
  proof (cases "r = 255")
    case True
    then show ?thesis using assms gt by simp
  next
    case False
    then have a: "(r + 1) mod 256 = r + 1" using assms by simp
    have b: "(256 + w - (r + 1)) mod 256 = 256 + w - (r + 1)"
      using gt assms by simp
    show ?thesis unfolding a b c using gt assms by simp
  qed
qed

termination rirb_drain
proof (relation "measure (\<lambda>(wp, chip). if unat (rirb_rp chip) < 256
          then (256 + unat wp - unat (rirb_rp chip)) mod 256 else 257)")
  show "wf (measure (\<lambda>(wp, chip). if unat (rirb_rp chip) < 256
          then (256 + unat wp - unat (rirb_rp chip)) mod 256 else 257))"
    by simp
next
  fix wp :: u8 and chip :: azx
  assume ne: "unat (rirb_rp chip) \<noteq> unat wp"
  have w: "unat wp < 256" by (rule unat_u8_lt)
  let ?r = "unat (rirb_rp chip)"
  have n: "unat (rirb_rp (rirb_entry chip)) = (?r + 1) mod 256"
    by (rule rirb_rp_rirb_entry)
  have lt: "(?r + 1) mod 256 < 256" by simp
  have "(256 + unat wp - (?r + 1) mod 256) mod 256
        < (if ?r < 256 then (256 + unat wp - ?r) mod 256 else 257)"
  proof (cases "?r < 256")
    case True
    with drain_measure[OF w True ne] show ?thesis by simp
  next
    case False
    have "(256 + unat wp - (?r + 1) mod 256) mod 256 < 256" by simp
    with False show ?thesis by simp
  qed
  then show "((wp, rirb_entry chip), (wp, chip)) \<in> measure (\<lambda>(wp, chip). if unat (rirb_rp chip) < 256
          then (256 + unat wp - unat (rirb_rp chip)) mod 256 else 257)"
    using lt by (simp add: n)
qed

declare rirb_drain.simps [simp del]

definition azx_update_rirb :: "azx \<Rightarrow> azx" where
  "azx_update_rirb chip =
     (let wp = azx_readb (RIRBWP chip) in
      if unat wp = unat (rirb_wp chip) then chip
      else rirb_drain wp (chip\<lparr>rirb_wp := ucast wp\<rparr>))"

subsection \<open>The hardware side of the ring\<close>

text \<open>
  The codec link: for each codec address, how many commands the codec has taken and not
  yet answered, and the response it produced for the command it took last (\<open>None\<close> while
  that answer is still owed).
\<close>

record codec_link =
  owed :: "nat \<Rightarrow> nat"
  produced :: "nat \<Rightarrow> u32 option"

text \<open>
  The controller takes the command at the CORB write pointer and hands it to the codec
  addressed by its top four bits.
\<close>

definition corb_fetch :: "azx \<Rightarrow> codec_link \<Rightarrow> codec_link" where
  "corb_fetch chip link =
     (let cmd = corb_buf chip (unat (azx_readb (CORBWP chip)));
          a = unat (drop_bit 28 cmd)
      in link\<lparr>owed := (owed link)(a := owed link a + 1),
              produced := (produced link)(a := None)\<rparr>)"

text \<open>
  The controller stores one response pair in the next RIRB entry (two 32-bit words) and
  advances its write pointer.
\<close>

definition rirb_deliver :: "azx \<Rightarrow> u32 \<Rightarrow> u32 \<Rightarrow> azx" where
  "rirb_deliver chip r res_ex =
     (let wp = (unat (azx_readb (RIRBWP chip)) + 1) mod 256
      in chip\<lparr>rirb_buf := (rirb_buf chip)(2 * wp := r, 2 * wp + 1 := res_ex),
              RIRBWP := of_nat wp\<rparr>)"

text \<open>
  What can happen beside the driver's calls: a codec answers a command it owes an answer
  to (a codec that owes nothing stays silent), the RIRB interrupt handler runs
  \<open>azx_update_rirb\<close>, or an arbitrary response pair is injected into the ring (an
  unsolicited event, or a fault).
\<close>

datatype hw_event = Codec_Response nat u32 | Rirb_Interrupt | Inject u32 u32

fun hw_step :: "hw_event \<Rightarrow> azx \<times> codec_link \<Rightarrow> azx \<times> codec_link" where
  "hw_step (Codec_Response a r) (chip, link) =
     (if a < 16 \<and> owed link a > 0
      then (rirb_deliver chip r (of_nat a),
            link\<lparr>owed := (owed link)(a := owed link a - 1),
                 produced := (produced link)(a := Some r)\<rparr>)
      else (chip, link))"
| "hw_step Rirb_Interrupt (chip, link) = (azx_update_rirb chip, link)"
| "hw_step (Inject r res_ex) (chip, link) = (rirb_deliver chip r res_ex, link)"

definition hw_steps :: "hw_event list \<Rightarrow> azx \<times> codec_link \<Rightarrow> azx \<times> codec_link" where
  "hw_steps evs s = fold hw_step evs s"

subsection \<open>Waiting for a response\<close>

text \<open>
  One pass of the \<open>for (loopcounter = 0;; loopcounter++)\<close> loop of
  \<open>azx_rirb_get_response\<close>, preceded by the hardware events that happened since the
  previous pass: poll the ring when in polling mode.
\<close>

definition rirb_pass :: "bool \<Rightarrow> hw_event list \<Rightarrow> azx \<times> codec_link \<Rightarrow> azx \<times> codec_link" where
  "rirb_pass do_poll evs s =
     (case hw_steps evs s of
        (chip, link) \<Rightarrow>
          if polling_mode chip \<or> do_poll then (azx_update_rirb chip, link) else (chip, link))"

text \<open>
  The loop.  The schedule lists, pass by pass, the hardware events seen before that pass;
  the one-second timeout expires at the last pass of the schedule (an empty schedule is a
  single pass without events).  The result says whether the loop left through
  \<open>!chip->rirb.cmds[addr]\<close>.
\<close>

fun rirb_wait :: "bool \<Rightarrow> nat \<Rightarrow> hw_event list list \<Rightarrow> azx \<times> codec_link \<Rightarrow> (azx \<times> codec_link) \<times> bool" where
  "rirb_wait do_poll addr [] s =
     (let s1 = rirb_pass do_poll [] s in (s1, rirb_cmds (fst s1) addr = 0))"
| "rirb_wait do_poll addr (evs # rest) s =
     (let s1 = rirb_pass do_poll evs s in
      if rirb_cmds (fst s1) addr = 0 then (s1, True)
      else if rest = [] then (s1, False)
      else rirb_wait do_poll addr rest s1)"

text \<open>
  Neither the hardware nor \<open>azx_update_rirb\<close> touches the flags that steer the fallback
  stages; the termination of \<open>azx_rirb_get_response\<close> rests on this.
\<close>

definition same_flags :: "azx \<Rightarrow> azx \<Rightarrow> bool" where
  "same_flags c c1 \<longleftrightarrow>
     poll_count c1 = poll_count c \<and> polling_mode c1 = polling_mode c \<and> msi c1 = msi c \<and>
     probing c1 = probing c \<and> single_cmd c1 = single_cmd c \<and>
     rirb_error (bus c1) = rirb_error (bus c) \<and> response_reset (bus c1) = response_reset (bus c) \<and>
     allow_bus_reset (bus c1) = allow_bus_reset (bus c) \<and> in_reset (bus c1) = in_reset (bus c)"

lemma same_flags_refl: "same_flags c c"
  by (simp add: same_flags_def)

lemma same_flags_trans: "same_flags a b \<Longrightarrow> same_flags b c \<Longrightarrow> same_flags a c"
  by (simp add: same_flags_def)

lemma same_flags_rirb_entry: "same_flags c (rirb_entry c)"
  by (simp add: same_flags_def rirb_entry_def Let_def)

lemma same_flags_rirb_drain: "same_flags c (rirb_drain wp c)"
proof (induction wp c rule: rirb_drain.induct)
  case (1 wp chip)
  show ?case
  proof (cases "unat (rirb_rp chip) \<noteq> unat wp")
    case True
    from "1.IH"[OF True] same_flags_rirb_entry[of chip]
    have "same_flags chip (rirb_drain wp (rirb_entry chip))"
      by (rule same_flags_trans[rotated])
    with True show ?thesis by (subst rirb_drain.simps) simp
  next
    case False
    then show ?thesis by (subst rirb_drain.simps) (simp add: same_flags_refl)
  qed
qed

lemma same_flags_update_rirb: "same_flags c (azx_update_rirb c)"
proof -
  have "same_flags c (c\<lparr>rirb_wp := w\<rparr>)" for w
    by (simp add: same_flags_def)
  then show ?thesis
    by (auto simp: azx_update_rirb_def Let_def same_flags_refl
             intro: same_flags_trans[OF _ same_flags_rirb_drain])
qed

lemma same_flags_rirb_deliver: "same_flags c (rirb_deliver c r e)"
  by (simp add: same_flags_def rirb_deliver_def Let_def)

lemma same_flags_hw_step: "same_flags (fst s) (fst (hw_step ev s))"
  by (cases ev; cases s)
     (auto simp: same_flags_refl same_flags_update_rirb same_flags_rirb_deliver)

lemma same_flags_hw_steps: "same_flags (fst s) (fst (hw_steps evs s))"
  unfolding hw_steps_def
proof (induction evs arbitrary: s)
  case Nil
  then show ?case by (simp add: same_flags_refl)
next
  case (Cons ev evs)
  from same_flags_hw_step[of s ev] Cons[of "hw_step ev s"] show ?case
    by (auto intro: same_flags_trans)
qed

lemma same_flags_rirb_pass: "same_flags (fst s) (fst (rirb_pass dp evs s))"
proof -
  obtain c l where h: "hw_steps evs s = (c, l)" by (cases "hw_steps evs s")
  with same_flags_hw_steps[of s evs] have "same_flags (fst s) c" by simp
  with h same_flags_update_rirb[of c] show ?thesis
    by (auto simp: rirb_pass_def intro: same_flags_trans)
qed

lemma same_flags_rirb_wait: "same_flags (fst s) (fst (fst (rirb_wait dp a sched s)))"
proof (induction sched arbitrary: s)
  case Nil
  then show ?case by (simp add: Let_def same_flags_rirb_pass)
next
  case (Cons evs rest)
  from same_flags_rirb_pass[of s dp evs] Cons[of "rirb_pass dp evs s"] show ?case
    by (auto simp: Let_def intro: same_flags_trans)
qed

text \<open>
  \<open>azx_rirb_get_response\<close> from the label \<open>again\<close>, with the current value of
  \<open>do_poll\<close>.  \<open>rounds\<close> gives the schedule of each successive wait loop (a missing
  one is empty); \<open>irq_ok\<close> says whether \<open>azx_acquire_irq\<close> succeeds.  The result is the
  new state and the returned value; -1 is the error value.
\<close>

function rirb_get_response_again ::
  "bool \<Rightarrow> nat \<Rightarrow> hw_event list list list \<Rightarrow> bool \<Rightarrow> azx \<times> codec_link \<Rightarrow> (azx \<times> codec_link) \<times> u32" where
  "rirb_get_response_again do_poll addr rounds irq_ok s =
     (case rirb_wait do_poll addr (case rounds of [] \<Rightarrow> [] | r # _ \<Rightarrow> r) s of
        ((chip, link), got) \<Rightarrow>
          if got then
            ((chip\<lparr>bus := (bus chip)\<lparr>rirb_error := False\<rparr>,
                    poll_count := (if \<not> do_poll then 0 else poll_count chip)\<rparr>, link),
             rirb_res chip addr)
          else if \<not> polling_mode chip \<and> poll_count chip < 2 then
            rirb_get_response_again True addr (tl rounds) irq_ok
              (chip\<lparr>poll_count := poll_count chip + 1\<rparr>, link)
          else if \<not> polling_mode chip then
            rirb_get_response_again do_poll addr (tl rounds) irq_ok
              (chip\<lparr>polling_mode := True\<rparr>, link)
          else if msi chip then
            (if \<not> irq_ok
             then ((chip\<lparr>irq := - 1, msi := False,
                         bus := (bus chip)\<lparr>rirb_error := True\<rparr>\<rparr>, link), - 1)
             else rirb_get_response_again do_poll addr (tl rounds) irq_ok
                    (chip\<lparr>irq := irq_id chip, msi := False\<rparr>, link))
          else if probing chip then ((chip, link), - 1)
          else
            (let bus1 = (bus chip)\<lparr>rirb_error := True\<rparr> in
             if allow_bus_reset bus1 \<and> \<not> response_reset bus1 \<and> \<not> in_reset bus1
             then ((chip\<lparr>bus := bus1\<lparr>response_reset := True\<rparr>\<rparr>, link), - 1)
             else
               (let chip1 = azx_free_cmd_io
                              (chip\<lparr>single_cmd := True, bus := bus1\<lparr>response_reset := False\<rparr>\<rparr>)
                in ((chip1\<lparr>GCTL := GCTL chip1 AND NOT ICH6_GCTL_UNSOL\<rparr>, link), - 1))))"
  by pat_completeness auto
termination
proof (relation "measure (\<lambda>(do_poll, addr, rounds, irq_ok, s).
          (if polling_mode (fst s) then 0 else 1 + nat (2 - poll_count (fst s))) +
          (if msi (fst s) then 1 else 0))")
  show "wf (measure (\<lambda>(do_poll, addr, rounds, irq_ok, s).
          (if polling_mode (fst s) then 0 else 1 + nat (2 - poll_count (fst s))) +
          (if msi (fst s) then 1 else 0)))"
    by simp
next
  fix do_poll :: bool and addr :: nat and rounds :: "hw_event list list list" and irq_ok :: bool
    and s :: "azx \<times> codec_link" and x y chip link
  assume w: "(x, y) = rirb_wait do_poll addr (case rounds of [] \<Rightarrow> [] | r # _ \<Rightarrow> r) s"
    and x: "(chip, link) = x"
  from same_flags_rirb_wait[of s do_poll addr "case rounds of [] \<Rightarrow> [] | r # _ \<Rightarrow> r"] w[symmetric] x[symmetric]
  have f: "poll_count chip = poll_count (fst s)" "polling_mode chip = polling_mode (fst s)"
    "msi chip = msi (fst s)"
    by (simp_all add: same_flags_def)
  {
    assume "\<not> polling_mode chip \<and> poll_count chip < 2"
    then show "((True, addr, tl rounds, irq_ok, chip\<lparr>poll_count := poll_count chip + 1\<rparr>, link),
            do_poll, addr, rounds, irq_ok, s)
           \<in> measure (\<lambda>(do_poll, addr, rounds, irq_ok, s).
          (if polling_mode (fst s) then 0 else 1 + nat (2 - poll_count (fst s))) +
          (if msi (fst s) then 1 else 0))"
      using f by simp
  next
    assume "\<not> polling_mode chip"
    then show "((do_poll, addr, tl rounds, irq_ok, chip\<lparr>polling_mode := True\<rparr>, link),
            do_poll, addr, rounds, irq_ok, s)
           \<in> measure (\<lambda>(do_poll, addr, rounds, irq_ok, s).
          (if polling_mode (fst s) then 0 else 1 + nat (2 - poll_count (fst s))) +
          (if msi (fst s) then 1 else 0))"
      using f by simp
  next
    assume "\<not> \<not> polling_mode chip" "msi chip"
    then show "((do_poll, addr, tl rounds, irq_ok, chip\<lparr>irq := irq_id chip, msi := False\<rparr>, link),
            do_poll, addr, rounds, irq_ok, s)
           \<in> measure (\<lambda>(do_poll, addr, rounds, irq_ok, s).
          (if polling_mode (fst s) then 0 else 1 + nat (2 - poll_count (fst s))) +
          (if msi (fst s) then 1 else 0))"
      using f by simp
  }
qed

declare rirb_get_response_again.simps [simp del]

definition azx_rirb_get_response ::
  "nat \<Rightarrow> hw_event list list list \<Rightarrow> bool \<Rightarrow> azx \<times> codec_link \<Rightarrow> (azx \<times> codec_link) \<times> u32" where
  "azx_rirb_get_response addr rounds irq_ok s = rirb_get_response_again False addr rounds irq_ok s"

subsection \<open>The single immediate command channel\<close>






subsection \<open>The callbacks \<open>azx_send_cmd\<close> and \<open>azx_get_response\<close>\<close>



subsection \<open>Sequences of operations\<close>

text \<open>
  Operations on the ring itself: a send (followed by the controller taking the command), a
  receive with the schedules of its wait loops, or a hardware event between calls.
\<close>

datatype ring_op = Ring_Send u32 | Ring_Receive nat "hw_event list list list" bool | Ring_Hw hw_event

fun ring_step :: "ring_op \<Rightarrow> azx \<times> codec_link \<Rightarrow> azx \<times> codec_link" where
  "ring_step (Ring_Send val) (chip, link) =
     (let chip1 = azx_corb_send_cmd chip val in (chip1, corb_fetch chip1 link))"
| "ring_step (Ring_Receive addr rounds irq_ok) s = fst (azx_rirb_get_response addr rounds irq_ok s)"
| "ring_step (Ring_Hw ev) s = hw_step ev s"

definition ring_run :: "ring_op list \<Rightarrow> azx \<times> codec_link \<Rightarrow> azx \<times> codec_link" where
  "ring_run ops s = fold ring_step ops s"

text \<open>The state after \<open>azx_init_cmd_io\<close>, with no command on the link.\<close>

definition ring_init :: "azx \<Rightarrow> azx \<times> codec_link" where
  "ring_init chip = (azx_init_cmd_io chip, \<lparr>owed = (\<lambda>_. 0), produced = (\<lambda>_. None)\<rparr>)"




text \<open>
  A sequence without injected faults in which a command is sent to a codec address (below
  \<open>AZX_MAX_CODECS\<close>) only when no command to that address is pending.
\<close>

fun no_inject :: "hw_event \<Rightarrow> bool" where
  "no_inject (Inject r res_ex) = False"
| "no_inject _ = True"

fun admissible :: "ring_op \<Rightarrow> azx \<times> codec_link \<Rightarrow> bool" where
  "admissible (Ring_Send val) s =
     (unat (drop_bit 28 val) < AZX_MAX_CODECS \<and> rirb_cmds (fst s) (azx_command_addr val) = 0)"
| "admissible (Ring_Receive addr rounds irq_ok) s =
     (addr < AZX_MAX_CODECS \<and> list_all (list_all (list_all no_inject)) rounds)"
| "admissible (Ring_Hw ev) s = no_inject ev"

fun disciplined :: "ring_op list \<Rightarrow> azx \<times> codec_link \<Rightarrow> bool" where
  "disciplined [] s = True"
| "disciplined (x # xs) s = (admissible x s \<and> disciplined xs (ring_step x s))"

section \<open>Notions used to state the ring properties\<close>

text \<open>Two chip states with the same ring contents.\<close>

definition ring_same :: "azx \<Rightarrow> azx \<Rightarrow> bool" where
  "ring_same c c1 \<longleftrightarrow>
     rirb_rp c1 = rirb_rp c \<and> rirb_wp c1 = rirb_wp c \<and> rirb_cmds c1 = rirb_cmds c \<and>
     rirb_res c1 = rirb_res c \<and> rirb_buf c1 = rirb_buf c \<and> RIRBWP c1 = RIRBWP c \<and>
     CORBWP c1 = CORBWP c \<and> corb_buf c1 = corb_buf c"

text \<open>Both ring indices are below the ring capacity.\<close>

definition idx_ok :: "azx \<times> codec_link \<Rightarrow> bool" where
  "idx_ok s \<longleftrightarrow> unat (CORBWP (fst s)) < 256 \<and> unat (rirb_rp (fst s)) < 256"

text \<open>The response pair that the next pass of the drain loop will handle.\<close>

definition rirb_next_res_ex :: "azx \<Rightarrow> u32" where
  "rirb_next_res_ex chip = rirb_buf chip (2 * unat ((rirb_rp chip + 1) mod ICH6_MAX_RIRB_ENTRIES) + 1)"

definition rirb_next_res :: "azx \<Rightarrow> u32" where
  "rirb_next_res chip = rirb_buf chip (2 * unat ((rirb_rp chip + 1) mod ICH6_MAX_RIRB_ENTRIES))"



subsection \<open>The responses in the ring and the commands on the link\<close>

text \<open>
  The read pointer and the hardware write pointer as numbers, the number of RIRB entries
  the hardware has written and \<open>azx_update_rirb\<close> has not yet handled, and those entries
  in the order in which the drain loop will handle them, as \<open>(res, res_ex)\<close> pairs.
\<close>

definition rp_n :: "azx \<Rightarrow> nat" where
  "rp_n chip = unat (rirb_rp chip)"

definition hw_n :: "azx \<Rightarrow> nat" where
  "hw_n chip = unat (azx_readb (RIRBWP chip))"

definition npend :: "azx \<Rightarrow> nat" where
  "npend chip = (256 + hw_n chip - rp_n chip) mod 256"

definition rirb_slot :: "azx \<Rightarrow> nat \<Rightarrow> u32 \<times> u32" where
  "rirb_slot chip i = (rirb_buf chip (2 * i), rirb_buf chip (2 * i + 1))"

definition rirb_pending :: "azx \<Rightarrow> (u32 \<times> u32) list" where
  "rirb_pending chip = map (\<lambda>k. rirb_slot chip ((rp_n chip + k) mod 256)) [1..<Suc (npend chip)]"

text \<open>
  Where the command last sent to a codec address stands.  Answered and handled: the counter
  is zero, the codec owes nothing, and the stored response is the one the codec produced
  (if it ever took a command).  Awaited: the counter is one and the codec still owes its
  answer.  In flight: the codec has answered and the response pair, tagged with the codec
  address, is in the ring, not yet handled.
\<close>

definition cmd_answered :: "(nat \<Rightarrow> u32) \<Rightarrow> (nat \<Rightarrow> u32) \<Rightarrow> codec_link \<Rightarrow> nat \<Rightarrow> bool" where
  "cmd_answered cmds res link a \<longleftrightarrow>
     cmds a = 0 \<and> owed link a = 0 \<and> (produced link a = None \<or> produced link a = Some (res a))"

definition cmd_awaited :: "(nat \<Rightarrow> u32) \<Rightarrow> codec_link \<Rightarrow> nat \<Rightarrow> bool" where
  "cmd_awaited cmds link a \<longleftrightarrow> cmds a = 1 \<and> owed link a = 1 \<and> produced link a = None"

definition resp_in_flight :: "(nat \<Rightarrow> u32) \<Rightarrow> codec_link \<Rightarrow> u32 \<times> u32 \<Rightarrow> bool" where
  "resp_in_flight cmds link p \<longleftrightarrow>
     (\<exists>a<8. snd p = of_nat a \<and> cmds a = 1 \<and> owed link a = 0 \<and> produced link a = Some (fst p))"

text \<open>
  The invariant of ring mode under the one-command-per-address discipline: the unhandled
  entries carry distinct codec addresses, each the answer in flight of the command pending
  for its address, and every other address below \<open>AZX_MAX_CODECS\<close> is answered or
  awaited.  Outside \<open>azx_update_rirb\<close> the software copy of the write pointer equals the
  read pointer.
\<close>

definition ring_inv0 :: "(u32 \<times> u32) list \<Rightarrow> (nat \<Rightarrow> u32) \<Rightarrow> (nat \<Rightarrow> u32) \<Rightarrow> codec_link \<Rightarrow> bool" where
  "ring_inv0 ps cmds res link \<longleftrightarrow>
     distinct (map snd ps) \<and> (\<forall>p \<in> set ps. resp_in_flight cmds link p) \<and>
     (\<forall>a. 8 \<le> a \<longrightarrow> owed link a = 0) \<and>
     (\<forall>a<8. of_nat a \<notin> snd ` set ps \<longrightarrow> cmd_answered cmds res link a \<or> cmd_awaited cmds link a)"

definition ring_inv :: "azx \<times> codec_link \<Rightarrow> bool" where
  "ring_inv s \<longleftrightarrow>
     rp_n (fst s) < 256 \<and> unat (rirb_wp (fst s)) = rp_n (fst s) \<and>
     ring_inv0 (rirb_pending (fst s)) (rirb_cmds (fst s)) (rirb_res (fst s)) (snd s)"

text \<open>The codec has taken a command for the address at some time.\<close>

definition cmd_taken :: "codec_link \<Rightarrow> nat \<Rightarrow> bool" where
  "cmd_taken link a \<longleftrightarrow> owed link a > 0 \<or> produced link a \<noteq> None"

section \<open>Concrete states used by the examples\<close>

definition ex_chip :: azx_pos where
  "ex_chip = \<lparr>position_fix = (\<lambda>_. POS_FIX_LPIB), bdl_pos_adj = 1\<rparr>"

definition ex_chip_auto :: azx_pos where
  "ex_chip_auto = \<lparr>position_fix = (\<lambda>_. POS_FIX_AUTO), bdl_pos_adj = 1\<rparr>"

definition ex_chip_via :: azx_pos where
  "ex_chip_via = \<lparr>position_fix = (\<lambda>_. POS_FIX_VIACOMBO), bdl_pos_adj = 1\<rparr>"

definition ex_dev :: azx_dev where
  "ex_dev = \<lparr>bufsize = 4096, period_bytes = 1024, frags = 4, fifo_size = 0, start_wallclk = 0,
     period_wallclk = 24000, sd_int_sta_mask = 1, substream = Some SNDRV_PCM_STREAM_PLAYBACK,
     format_val = 0x11, running = True, irq_pending = False, insufficient = False\<rparr>"

definition ex_hw :: hw_regs where
  "ex_hw = \<lparr>WALLCLK = 24000, SD_LPIB = 600, posbuf = 600, VIA_IN_STREAM0_FIFO_SIZE = 0\<rparr>"

text \<open>
  A 4 MiB buffer of two 2 MiB periods on scattered 4 KiB pages: one period alone needs 512
  descriptor entries.
\<close>

definition ex_huge :: pcm_substream where
  "ex_huge = \<lparr>sgbuf_get_addr = (\<lambda>ofs. nat ofs),
     sgbuf_get_chunk_size = (\<lambda>ofs sz. min sz (4096 - ofs mod 4096)),
     frames_to_bytes = (\<lambda>n. 4 * n), rt_rate = 48000, rt_period_size = 0x80000,
     rt_no_period_wakeup = False, lib_buffer_bytes = 0x400000, lib_period_bytes = 0x200000,
     pcm_direction = SNDRV_PCM_STREAM_PLAYBACK\<rparr>"

text \<open>A controller in ring mode with an empty ring and MSI enabled.\<close>

definition ex_azx :: azx where
  "ex_azx = \<lparr>corb_buf = (\<lambda>_. 0), rirb_buf = (\<lambda>_. 0), rirb_rp = 0, rirb_wp = 0,
     rirb_cmds = (\<lambda>_. 0), rirb_res = (\<lambda>_. 0), last_cmd = (\<lambda>_. 0), poll_count = 0,
     single_cmd = False, polling_mode = False, msi = True, probing = False, irq = 16, irq_id = 16,
     CORBWP = 0, CORBCTL = 2, RIRBWP = 0, RIRBCTL = 3, GCTL = 0x101, IC = 0, IRS = 0,
     spurious = [],
     bus = \<lparr>rirb_error = False, allow_bus_reset = False, response_reset = False,
             in_reset = False, unsol_queue = []\<rparr>\<rparr>"

definition ex_link :: codec_link where
  "ex_link = \<lparr>owed = (\<lambda>_. 0), produced = (\<lambda>_. None)\<rparr>"


definition ex_probing :: "azx \<times> codec_link" where
  "ex_probing = (ex_azx\<lparr>rirb_cmds := (\<lambda>_. 0)(3 := 1), probing := True\<rparr>, ex_link)"

text \<open>
  The hardware wrote one response with codec address 5 and a clear unsolicited bit into
  entry 1; no command to address 5 is pending in \<open>ex_spurious\<close>, one is in
  \<open>ex_matched\<close>.
\<close>

definition ex_spurious :: azx where
  "ex_spurious = ex_azx\<lparr>rirb_buf := (\<lambda>_. 0)(2 := 0x1234, 3 := 5), RIRBWP := 1\<rparr>"

definition ex_matched :: azx where
  "ex_matched = ex_spurious\<lparr>rirb_cmds := (\<lambda>_. 0)(5 := 1)\<rparr>"

text \<open>
  A command to codec address 3 (\<open>0x300F0000\<close>: get parameter 0 of the root node) and
  the codec's answer to it.
\<close>

definition ex_round_trip_ops :: "ring_op list" where
  "ex_round_trip_ops = [Ring_Send 0x300F0000, Ring_Hw (Codec_Response 3 0x10EC0880)]"

section \<open>Properties of stream preparation\<close>

lemma setup_bdle_fields:
  "setup_bdle ss d bdl ofs sz w = (d1, bdl1, r) \<Longrightarrow>
     bufsize d1 = bufsize d \<and> period_bytes d1 = period_bytes d \<and> format_val d1 = format_val d \<and>
     period_wallclk d1 = period_wallclk d"
proof (induction ss d bdl ofs sz w rule: setup_bdle.induct)
  case (1 ss azx_dev bdl ofs sz with_ioc)
  show ?case
  proof (cases "sz > 0 \<and> \<not> frags azx_dev \<ge> AZX_MAX_BDL_ENTRIES")
    case True
    with "1.prems" have "setup_bdle ss (azx_dev\<lparr>frags := frags azx_dev + 1\<rparr>)
        (bdl @ [\<lparr>bdle_addr = sgbuf_get_addr ss ofs, bdle_size = sgbuf_get_chunk_size ss ofs sz,
                 bdle_ioc = \<not> (sz - sgbuf_get_chunk_size ss ofs sz \<noteq> 0 \<or> \<not> with_ioc)\<rparr>])
        (ofs + sgbuf_get_chunk_size ss ofs sz) (sz - sgbuf_get_chunk_size ss ofs sz) with_ioc = (d1, bdl1, r)"
      by (subst (asm) setup_bdle.simps) (simp add: Let_def)
    with "1.IH"[OF _ _ refl refl refl refl] True show ?thesis by simp
  next
    case False
    with "1.prems" show ?thesis
      by (subst (asm) setup_bdle.simps) (auto split: if_splits)
  qed
qed

lemma setup_periods_loop_fields:
  "setup_periods_loop ss pb pa n i d bdl ofs = (d1, bdl1, r) \<Longrightarrow>
     bufsize d1 = bufsize d \<and> period_bytes d1 = period_bytes d \<and> format_val d1 = format_val d \<and>
     period_wallclk d1 = period_wallclk d"
proof (induction ss pb pa n i d bdl ofs rule: setup_periods_loop.induct)
  case (1 ss pbytes pos_adj periods i azx_dev bdl ofs)
  show ?case
  proof (cases "i < periods")
    case False
    with "1.prems" show ?thesis by (subst (asm) setup_periods_loop.simps) simp
  next
    case True
    obtain d2 b2 o2 where s: "(if i = periods - 1 \<and> pos_adj \<noteq> 0
              then setup_bdle ss azx_dev bdl ofs (pbytes - pos_adj) False
              else setup_bdle ss azx_dev bdl ofs pbytes (\<not> rt_no_period_wakeup ss)) = (d2, b2, o2)"
      by (metis prod_cases3)
    then have f: "bufsize d2 = bufsize azx_dev \<and> period_bytes d2 = period_bytes azx_dev \<and>
        format_val d2 = format_val azx_dev \<and> period_wallclk d2 = period_wallclk azx_dev"
      by (auto split: if_splits dest: setup_bdle_fields)
    from "1.prems" True s
    have e: "(if o2 < 0 then (d2, b2, - EINVAL)
              else setup_periods_loop ss pbytes pos_adj periods (i + 1) d2 b2 o2) = (d1, bdl1, r)"
      by (subst (asm) setup_periods_loop.simps) simp
    show ?thesis
    proof (cases "o2 < 0")
      case True
      with e f show ?thesis by simp
    next
      case False
      with "1.IH"[OF \<open>i < periods\<close> s[symmetric] refl False] e f
      show ?thesis by simp
    qed
  qed
qed

lemma azx_setup_periods_fields:
  "azx_setup_periods chip ss d = Inr (d1, bdl1, r) \<Longrightarrow>
     bufsize d1 = bufsize d \<and> period_bytes d1 = period_bytes d \<and> format_val d1 = format_val d \<and>
     period_wallclk d1 = period_wallclk d"
  by (auto simp: azx_setup_periods_def Let_def
           split: if_splits prod.splits dest!: setup_bdle_fields setup_periods_loop_fields)

lemma setup_bdle_overflow:
  "\<forall>ofs sz. sgbuf_get_chunk_size ss ofs sz \<le> 4096 \<Longrightarrow>
   uint (frags d) \<le> 256 \<Longrightarrow> sz > (256 - uint (frags d)) * 4096 \<Longrightarrow>
   snd (snd (setup_bdle ss d bdl ofs sz w)) = - EINVAL"
proof (induction ss d bdl ofs sz w rule: setup_bdle.induct)
  case (1 ss azx_dev bdl ofs sz with_ioc)
  have pos: "sz > 0" using "1.prems" by simp
  show ?case
  proof (cases "frags azx_dev \<ge> AZX_MAX_BDL_ENTRIES")
    case True
    with pos show ?thesis by (subst setup_bdle.simps) simp
  next
    case False
    then have lt: "uint (frags azx_dev) < 256"
      by (simp add: AZX_MAX_BDL_ENTRIES_def word_le_def)
    have "uint (frags azx_dev + 1) = (uint (frags azx_dev) + 1) mod 2 ^ 32"
      by (simp add: uint_word_ariths)
    with lt have u: "uint (frags azx_dev + 1) = uint (frags azx_dev) + 1"
      by simp
    let ?chunk = "sgbuf_get_chunk_size ss ofs sz"
    have l: "uint (frags (azx_dev\<lparr>frags := frags azx_dev + 1\<rparr>)) \<le> 256"
      using lt u by simp
    have g: "sz - ?chunk > (256 - uint (frags (azx_dev\<lparr>frags := frags azx_dev + 1\<rparr>))) * 4096"
    proof -
      have "uint (frags (azx_dev\<lparr>frags := frags azx_dev + 1\<rparr>)) = uint (frags azx_dev) + 1"
        using u by simp
      moreover have "?chunk \<le> 4096" using "1.prems"(1) by blast
      ultimately show ?thesis using "1.prems"(3) by (simp add: algebra_simps)
    qed
    from "1.IH"[OF pos False refl refl refl refl "1.prems"(1) l g]
    have "snd (snd (setup_bdle ss (azx_dev\<lparr>frags := frags azx_dev + 1\<rparr>)
        (bdl @ [\<lparr>bdle_addr = sgbuf_get_addr ss ofs, bdle_size = ?chunk,
                 bdle_ioc = \<not> (sz - ?chunk \<noteq> 0 \<or> \<not> with_ioc)\<rparr>])
        (ofs + ?chunk) (sz - ?chunk) with_ioc)) = - EINVAL" .
    with pos False show ?thesis by (subst setup_bdle.simps) (simp add: Let_def)
  qed
qed

lemma setup_bdle_frags_le:
  "uint (frags d) \<le> 256 \<Longrightarrow> setup_bdle ss d bdl ofs sz w = (d1, bdl1, r) \<Longrightarrow>
   uint (frags d1) \<le> 256"
proof (induction ss d bdl ofs sz w rule: setup_bdle.induct)
  case (1 ss azx_dev bdl ofs sz with_ioc)
  show ?case
  proof (cases "sz > 0 \<and> \<not> frags azx_dev \<ge> AZX_MAX_BDL_ENTRIES")
    case True
    then have lt: "uint (frags azx_dev) < 256"
      by (simp add: AZX_MAX_BDL_ENTRIES_def word_le_def)
    have "uint (frags azx_dev + 1) = (uint (frags azx_dev) + 1) mod 2 ^ 32"
      by (simp add: uint_word_ariths)
    with lt have l: "uint (frags (azx_dev\<lparr>frags := frags azx_dev + 1\<rparr>)) \<le> 256"
      by simp
    from "1.prems"(2) True have "setup_bdle ss (azx_dev\<lparr>frags := frags azx_dev + 1\<rparr>)
        (bdl @ [\<lparr>bdle_addr = sgbuf_get_addr ss ofs, bdle_size = sgbuf_get_chunk_size ss ofs sz,
                 bdle_ioc = \<not> (sz - sgbuf_get_chunk_size ss ofs sz \<noteq> 0 \<or> \<not> with_ioc)\<rparr>])
        (ofs + sgbuf_get_chunk_size ss ofs sz) (sz - sgbuf_get_chunk_size ss ofs sz) with_ioc = (d1, bdl1, r)"
      by (subst (asm) setup_bdle.simps) (simp add: Let_def)
    with "1.IH"[OF _ _ refl refl refl refl l] True show ?thesis by simp
  next
    case False
    with "1.prems" show ?thesis
      by (subst (asm) setup_bdle.simps) (auto split: if_splits)
  qed
qed

lemma setup_periods_loop_overflow:
  assumes "\<forall>ofs sz. sgbuf_get_chunk_size ss ofs sz \<le> 4096"
    and "256 * 4096 < pbytes" and "2 \<le> periods" and "uint (frags d) \<le> 256"
  shows "\<exists>d1 b1. setup_periods_loop ss pbytes pos_adj periods 0 d bdl ofs = (d1, b1, - EINVAL)"
proof -
  obtain n where n: "n = uint (frags d)" and n0: "0 \<le> n" by simp
  from assms(2) n0 have "(256 - n) * 4096 < pbytes"
    by (simp add: algebra_simps)
  then have big: "(256 - uint (frags d)) * 4096 < pbytes"
    unfolding n .
  from setup_bdle_overflow[OF assms(1,4) big]
  obtain d1 b1 where sb: "setup_bdle ss d bdl ofs pbytes (\<not> rt_no_period_wakeup ss) = (d1, b1, - EINVAL)"
    by (metis prod.collapse)
  have "setup_periods_loop ss pbytes pos_adj periods 0 d bdl ofs = (d1, b1, - EINVAL)"
    using assms(3) by (subst setup_periods_loop.simps) (simp add: sb EINVAL_def)
  then show ?thesis by blast
qed

lemma azx_setup_periods_overflow:
  assumes "\<forall>ofs sz. sgbuf_get_chunk_size ss ofs sz \<le> 4096"
    and "256 * 4096 < sint (period_bytes d)"
    and "2 \<le> sint (bufsize d div period_bytes d)"
  shows "\<exists>d1 b1. azx_setup_periods chip ss d = Inr (d1, b1, - EINVAL)"
proof -
  let ?pb = "sint (period_bytes d)" and ?n = "sint (bufsize d div period_bytes d)"
  let ?d0 = "d\<lparr>frags := 0\<rparr>"
  have nz: "period_bytes d \<noteq> 0" using assms(2) by auto
  have f0: "uint (frags ?d0) \<le> 256" by simp
  note loop = setup_periods_loop_overflow[OF assms(1) assms(2) assms(3)]
  show ?thesis
  proof (cases "0 < bdl_pos_adj chip \<and> \<not> ?pb \<le> pos_adj_bytes (bdl_pos_adj chip) ss")
    case False
    from loop[OF f0, of 0 "[]" 0] obtain d1 b1
      where "setup_periods_loop ss ?pb 0 ?n 0 ?d0 [] 0 = (d1, b1, - EINVAL)" by blast
    with False nz show ?thesis
      by (auto simp: azx_setup_periods_def Let_def)
  next
    case True
    let ?pa = "pos_adj_bytes (bdl_pos_adj chip) ss"
    obtain d1 b1 o1 where sb: "setup_bdle ss ?d0 [] 0 ?pa (\<not> rt_no_period_wakeup ss) = (d1, b1, o1)"
      by (metis prod.collapse)
    from setup_bdle_frags_le[OF f0 sb] have f1: "uint (frags d1) \<le> 256" .
    show ?thesis
    proof (cases "o1 < 0")
      case neg: True
      with True nz sb show ?thesis
        by (auto simp: azx_setup_periods_def Let_def)
    next
      case nonneg: False
      from loop[OF f1, of ?pa b1 o1] obtain d2 b2
        where "setup_periods_loop ss ?pb ?pa ?n 0 d1 b1 o1 = (d2, b2, - EINVAL)" by blast
      with True nz sb nonneg show ?thesis
        by (auto simp: azx_setup_periods_def Let_def)
    qed
  qed
qed

text \<open>
  Claim C6.  A stream as \<open>azx_pcm_hw_params\<close> leaves it is prepared for a geometry of at
  least two periods on a scatter-gather buffer whose chunks never exceed a 4096-byte page,
  each period longer than 256 pages: the descriptor list overflows whatever the position
  adjustment.  \<open>azx_pcm_prepare\<close> returns \<open>-EINVAL\<close>, but the stream now holds the
  requested buffer size, period size and format value instead of the zeros it held; and
  the same request repeated finds the fields equal, skips \<open>azx_setup_periods\<close> and
  returns what \<open>snd_hda_codec_prepare\<close> returns.
\<close>

theorem prepare_overflow_stale_config:
  assumes "fmt \<noteq> 0" and "rt_rate ss \<noteq> 0"
    and "\<forall>ofs sz. sgbuf_get_chunk_size ss ofs sz \<le> 4096"
    and "256 * 4096 < sint (lib_period_bytes ss)"
    and "2 \<le> sint (lib_buffer_bytes ss div lib_period_bytes ss)"
  shows "\<exists>d1 b1 d2.
           azx_pcm_prepare chip ss (fst (azx_pcm_hw_params azx_dev malloc_ret)) bdl fmt sd_fifosize
               codec_prepare = Inr (d1, b1, - EINVAL) \<and>
           bufsize d1 = lib_buffer_bytes ss \<and> period_bytes d1 = lib_period_bytes ss \<and>
           format_val d1 = fmt \<and>
           azx_pcm_prepare chip ss d1 b1 fmt sd_fifosize codec_prepare = Inr (d2, b1, codec_prepare)"
proof -
  let ?d = "fst (azx_pcm_hw_params azx_dev malloc_ret)"
  let ?r = "?d\<lparr>bufsize := lib_buffer_bytes ss, period_bytes := lib_period_bytes ss,
                 format_val := fmt\<rparr>"
  have z: "format_val ?d = 0" by (simp add: azx_pcm_hw_params_def)
  have big: "256 * 4096 < sint (period_bytes ?r)" using assms(4) by simp
  have two: "2 \<le> sint (bufsize ?r div period_bytes ?r)" using assms(5) by simp
  from azx_setup_periods_overflow[OF assms(3) big two, of chip]
  obtain d1 b1 where o: "azx_setup_periods chip ss ?r = Inr (d1, b1, - EINVAL)" by blast
  from azx_setup_periods_fields[OF o]
  have f: "bufsize d1 = lib_buffer_bytes ss" "period_bytes d1 = lib_period_bytes ss"
    "format_val d1 = fmt"
    by simp_all
  have ne: "fmt \<noteq> format_val ?d" using assms(1) z by simp
  have first: "azx_pcm_prepare chip ss ?d bdl fmt sd_fifosize codec_prepare = Inr (d1, b1, - EINVAL)"
    using assms(1) ne o by (simp add: azx_pcm_prepare_def Let_def EINVAL_def)
  have "\<exists>d2. azx_pcm_prepare chip ss d1 b1 fmt sd_fifosize codec_prepare = Inr (d2, b1, codec_prepare)"
    using assms(1,2) f by (simp add: azx_pcm_prepare_def Let_def)
  with first f show ?thesis by blast
qed

lemma ex_huge_chunks: "\<forall>ofs sz. sgbuf_get_chunk_size ex_huge ofs sz \<le> 4096"
proof (intro allI)
  fix ofs sz :: int
  have "sgbuf_get_chunk_size ex_huge ofs sz = min sz (4096 - ofs mod 4096)"
    by (simp add: ex_huge_def)
  moreover have "0 \<le> ofs mod 4096" by simp
  ultimately show "sgbuf_get_chunk_size ex_huge ofs sz \<le> 4096"
    by linarith
qed

theorem prepare_overflow_stale_config_witness:
  "\<exists>d1 b1 d2.
     azx_pcm_prepare ex_chip ex_huge (fst (azx_pcm_hw_params ex_dev 0)) [] 0x11 0 0 =
       Inr (d1, b1, - EINVAL) \<and>
     bufsize d1 = 0x400000 \<and> period_bytes d1 = 0x200000 \<and> format_val d1 = 0x11 \<and>
     azx_pcm_prepare ex_chip ex_huge d1 b1 0x11 0 0 = Inr (d2, b1, 0)"
proof -
  have h1: "(0x11 :: u32) \<noteq> 0" by simp
  have h2: "rt_rate ex_huge \<noteq> 0" by (simp add: ex_huge_def)
  have h4: "256 * 4096 < sint (lib_period_bytes ex_huge)" by (simp add: ex_huge_def)
  have h5: "2 \<le> sint (lib_buffer_bytes ex_huge div lib_period_bytes ex_huge)"
    by (simp add: ex_huge_def)
  have f: "lib_buffer_bytes ex_huge = 0x400000" "lib_period_bytes ex_huge = 0x200000"
    by (simp_all add: ex_huge_def)
  show ?thesis
    using prepare_overflow_stale_config[OF h1 h2 ex_huge_chunks h4 h5, of ex_chip ex_dev 0 "[]" 0 0]
    unfolding f .
qed

text \<open>
  The wrapping of the position adjustment: 50000 frames at 96 kHz come to 50000 frames,
  not to 100000.
\<close>

lemma pos_adj_bytes_wraps:
  "pos_adj_bytes 50000 (ex_huge\<lparr>rt_rate := 96000, frames_to_bytes := (\<lambda>n. n)\<rparr>) = 50000"
  by (simp add: pos_adj_bytes_def wrap_int_def c_div_def Let_def)

section \<open>Properties of the position code\<close>

lemma via_get_position_fields:
  "azx_via_get_position d st hw = Inr (d1, p) \<Longrightarrow> bufsize d1 = bufsize d"
  by (auto simp: azx_via_get_position_def Let_def split: if_splits)

lemma via_get_position_fault:
  "azx_via_get_position d st hw = Inl f \<Longrightarrow> st = SNDRV_PCM_STREAM_CAPTURE \<and> period_bytes d = 0"
  by (cases st) (auto simp: azx_via_get_position_def Let_def split: if_splits)

lemma get_position_fields:
  "azx_get_position chip d hw wc = Inr (chip1, d1, pos) \<Longrightarrow>
     period_bytes d1 = period_bytes d \<and> start_wallclk d1 = start_wallclk d \<and>
     period_wallclk d1 = period_wallclk d \<and> bdl_pos_adj chip1 = bdl_pos_adj chip"
  by (auto simp: azx_get_position_def azx_via_get_position_def Let_def
           split: option.splits pos_fix.splits sum.splits if_splits)

lemma get_position_settled:
  assumes "substream d = Some st"
    and "position_fix chip st = POS_FIX_LPIB \<or> position_fix chip st = POS_FIX_POSBUF"
  shows "\<exists>pos. azx_get_position chip d hw wc = Inr (chip, d, pos)"
  using assms by (auto simp: azx_get_position_def Let_def)

lemma checked_reads_settled:
  assumes "substream d = Some st"
    and "position_fix chip st = POS_FIX_LPIB \<or> position_fix chip st = POS_FIX_POSBUF"
  shows "checked_reads chip d hws = replicate (length hws) chip"
proof (induction hws)
  case Nil
  then show ?case by simp
next
  case (Cons hw hws)
  from get_position_settled[OF assms] obtain pos
    where "azx_get_position chip d hw True = Inr (chip, d, pos)"
    by blast
  with Cons show ?case by simp
qed

lemma get_position_auto:
  assumes "substream d = Some st" and "position_fix chip st = POS_FIX_AUTO"
  shows "\<exists>pos. azx_get_position chip d hw True =
           Inr (chip\<lparr>position_fix := (position_fix chip)(st := autodetect_choice hw)\<rparr>, d, pos)"
  using assms by (auto simp: azx_get_position_def Let_def autodetect_choice_def)

text \<open>
  Claim C7, as amended.  When the elapsed ticks are at least 2/3 and less than 5/4 of the
  period's ticks (as the code computes them) and the position read lies beyond the middle
  of its period, \<open>azx_position_ok\<close> never accepts: with a nonzero \<open>bdl_pos_adj\<close> it
  returns 0 (not yet), and the interrupt handler then, where its guard
  \<open>chip->bus && chip->bus->workq\<close> holds, marks the stream \<open>irq_pending\<close> and queues the
  pending work without notifying (where the guard fails it does nothing); with a zero
  \<open>bdl_pos_adj\<close> it returns -1 and the handler does nothing.  The start tick is left as it
  was in both cases.
\<close>

theorem position_ok_beyond_half_period:
  assumes "\<not> WALLCLK hw - start_wallclk azx_dev < (period_wallclk azx_dev * 2) div 3"
    and "WALLCLK hw - start_wallclk azx_dev < (period_wallclk azx_dev * 5) div 4"
    and "azx_get_position chip azx_dev hw True = Inr (chip1, azx_dev1, pos)"
    and "period_bytes azx_dev \<noteq> 0"
    and "pos mod period_bytes azx_dev > period_bytes azx_dev div 2"
    and "running azx_dev" and "status AND sd_int_sta_mask azx_dev \<noteq> 0"
    and "sd_status AND SD_INT_COMPLETE \<noteq> 0"
  shows "azx_position_ok chip azx_dev hw =
           Inr (chip1, azx_dev1, if bdl_pos_adj chip \<noteq> 0 then 0 else - 1) \<and>
         start_wallclk azx_dev1 = start_wallclk azx_dev \<and>
         azx_interrupt_stream chip azx_dev hw status sd_status workq =
           (if bdl_pos_adj chip \<noteq> 0 \<and> workq
            then Inr (chip1, azx_dev1\<lparr>irq_pending := True\<rparr>, False, True)
            else Inr (chip1, azx_dev1, False, False))"
proof -
  note f = get_position_fields[OF assms(3)]
  have ok: "azx_position_ok chip azx_dev hw =
           Inr (chip1, azx_dev1, if bdl_pos_adj chip \<noteq> 0 then 0 else - 1)"
    using assms(1,2,4,5) f by (simp add: azx_position_ok_def Let_def assms(3))
  obtain st where s: "substream azx_dev = Some st"
    using assms(3) by (cases "substream azx_dev") (auto simp: azx_get_position_def)
  show ?thesis
    using ok f s assms(6,7,8) by (simp add: azx_interrupt_stream_def)
qed

lemma ex_get_position:
  "azx_get_position ex_chip ex_dev ex_hw True = Inr (ex_chip, ex_dev, 600)"
  by (simp add: ex_chip_def ex_dev_def ex_hw_def azx_get_position_def Let_def)

theorem position_ok_beyond_half_period_witness:
  "azx_position_ok ex_chip ex_dev ex_hw = Inr (ex_chip, ex_dev, 0) \<and>
   azx_interrupt_stream ex_chip ex_dev ex_hw 1 4 True =
     Inr (ex_chip, ex_dev\<lparr>irq_pending := True\<rparr>, False, True)"
proof -
  have h1: "\<not> WALLCLK ex_hw - start_wallclk ex_dev < (period_wallclk ex_dev * 2) div 3"
    by (simp add: ex_dev_def ex_hw_def)
  have h2: "WALLCLK ex_hw - start_wallclk ex_dev < (period_wallclk ex_dev * 5) div 4"
    by (simp add: ex_dev_def ex_hw_def)
  have h4: "period_bytes ex_dev \<noteq> 0" by (simp add: ex_dev_def)
  have h5: "(600 :: u32) mod period_bytes ex_dev > period_bytes ex_dev div 2"
    by (simp add: ex_dev_def)
  have h6: "running ex_dev" by (simp add: ex_dev_def)
  have h7: "(1 :: u32) AND sd_int_sta_mask ex_dev \<noteq> 0" by (simp add: ex_dev_def)
  have h8: "(4 :: u8) AND SD_INT_COMPLETE \<noteq> 0" by (simp add: SD_INT_COMPLETE_def)
  have b: "bdl_pos_adj ex_chip \<noteq> 0" by (simp add: ex_chip_def)
  show ?thesis
    using position_ok_beyond_half_period[OF h1 h2 ex_get_position h4 h5 h6 h7 h8, of True] b
    by simp
qed

text \<open>
  Claim C7 as stated fails: with the nonzero offset \<open>bdl_pos_adj = 1\<close>, 24000 elapsed ticks
  of a 24000-tick period and position 600 in a 1024-byte period, the evaluation returns 0
  and leaves the start tick alone; it does not accept.
\<close>

theorem position_ok_nonzero_offset_counterexample:
  "bdl_pos_adj ex_chip \<noteq> 0 \<and>
   \<not> WALLCLK ex_hw - start_wallclk ex_dev < (period_wallclk ex_dev * 2) div 3 \<and>
   WALLCLK ex_hw - start_wallclk ex_dev < (period_wallclk ex_dev * 5) div 4 \<and>
   azx_get_position ex_chip ex_dev ex_hw True = Inr (ex_chip, ex_dev, 600) \<and>
   (600 :: u32) mod period_bytes ex_dev > period_bytes ex_dev div 2 \<and>
   azx_position_ok ex_chip ex_dev ex_hw = Inr (ex_chip, ex_dev, 0)"
  by (simp add: ex_chip_def ex_dev_def ex_hw_def azx_position_ok_def azx_get_position_def Let_def)

lemma half_period_is_too_early:
  assumes "6 \<le> unat (period_wallclk azx_dev)" and "unat (period_wallclk azx_dev) < 2 ^ 31"
    and "2 * unat (WALLCLK hw - start_wallclk azx_dev) = unat (period_wallclk azx_dev)"
  shows "azx_position_ok chip azx_dev hw = Inr (chip, azx_dev, - 1) \<and>
         azx_interrupt_stream chip azx_dev hw status sd_status workq =
           Inr (chip, azx_dev, False, False)"
proof -
  let ?pw = "period_wallclk azx_dev"
  let ?e = "WALLCLK hw - start_wallclk azx_dev"
  have m: "unat (?pw * 2) = unat ?pw * 2"
    using assms(2) by (simp add: unat_word_ariths)
  have "unat ((?pw * 2) div 3) = (unat ?pw * 2) div 3"
    by (simp add: unat_div m)
  moreover have "unat ?e < (unat ?pw * 2) div 3"
    using assms(1,3) by arith
  ultimately have "?e < (?pw * 2) div 3"
    by (simp add: word_less_nat_alt)
  then have ok: "azx_position_ok chip azx_dev hw = Inr (chip, azx_dev, - 1)"
    by (simp add: azx_position_ok_def Let_def)
  then show ?thesis
    by (simp add: azx_interrupt_stream_def)
qed

text \<open>
  The period tick count that line 2059 of \<open>azx_pcm_prepare\<close> stores, for a rate of at
  least 2000 Hz: a multiple of 1000 below \<open>2^31\<close>.
\<close>

lemma stored_period_wallclk:
  fixes psize rate :: u32
  assumes "2000 \<le> rate"
  shows "unat (((psize * 24000) div rate) * 1000) = (unat (psize * 24000) div unat rate) * 1000 \<and>
         unat (((psize * 24000) div rate) * 1000) < 2 ^ 31"
proof -
  let ?q = "(psize * 24000) div rate"
  have r: "2000 \<le> unat rate"
    using assms by (simp add: word_le_nat_alt)
  have x: "unat (psize * 24000) < 2 ^ 32"
    using unsigned_less[of "psize * 24000", where ?'a = nat] by simp
  have q: "unat ?q = unat (psize * 24000) div unat rate"
    by (simp add: unat_div)
  have "unat (psize * 24000) div unat rate \<le> unat (psize * 24000) div 2000"
    using r by (simp add: div_le_mono2)
  also have "\<dots> \<le> 4294967295 div 2000"
    using x by (intro div_le_mono) simp
  finally have b: "unat ?q \<le> 2147483" by (simp add: q)
  then have l: "unat ?q * 1000 < 2 ^ 31" by simp
  then have "unat ?q * unat (1000 :: u32) < 2 ^ 32" by simp
  then have "unat (?q * 1000) = unat ?q * unat (1000 :: u32)"
    by (simp add: unat_mult_lem[THEN iffD1])
  then have "unat (?q * 1000) = unat ?q * 1000" by simp
  with l q show ?thesis by simp
qed

lemma prepare_stores_period_wallclk:
  assumes "azx_pcm_prepare chip ss azx_dev bdl fmt sd_fifosize codec_prepare = Inr (azx_dev1, bdl1, r)"
  shows "period_wallclk azx_dev1 = ((rt_period_size ss * 24000) div rt_rate ss) * 1000 \<or>
         period_wallclk azx_dev1 = period_wallclk azx_dev"
proof -
  have f: "period_wallclk d1 = period_wallclk d"
    if "azx_setup_periods chip ss d = Inr (d1, b1, e)" for d d1 b1 e
    using azx_setup_periods_fields[OF that] by simp
  show ?thesis
    using assms
    by (auto simp: azx_pcm_prepare_def Let_def split: if_splits sum.splits prod.splits dest!: f)
qed

text \<open>
  Claim C8.  For a stream whose period tick count is a nonzero value as
  \<open>azx_pcm_prepare\<close> stores it (\<open>((period_size * 24000) / rate) * 1000\<close>, with a rate of
  at least 2000 Hz), an evaluation after exactly half the period's ticks returns -1 whatever
  the hardware reports as position, changes neither chip nor stream, and the interrupt
  handler neither notifies nor queues work.
\<close>

theorem position_ok_half_period_too_early:
  assumes "period_wallclk azx_dev = ((psize * 24000) div rate) * 1000" and "2000 \<le> rate"
    and "period_wallclk azx_dev \<noteq> 0"
    and "2 * unat (WALLCLK hw - start_wallclk azx_dev) = unat (period_wallclk azx_dev)"
  shows "azx_position_ok chip azx_dev hw = Inr (chip, azx_dev, - 1) \<and>
         azx_interrupt_stream chip azx_dev hw status sd_status workq =
           Inr (chip, azx_dev, False, False)"
proof -
  from stored_period_wallclk[OF assms(2), of psize] assms(1)
  have u: "unat (period_wallclk azx_dev) = (unat (psize * 24000) div unat rate) * 1000"
    and l: "unat (period_wallclk azx_dev) < 2 ^ 31"
    by simp_all
  from assms(3) have "unat (period_wallclk azx_dev) \<noteq> 0"
    by (simp add: unat_eq_0)
  with u have "unat (psize * 24000) div unat rate \<noteq> 0" by auto
  then have "1000 \<le> (unat (psize * 24000) div unat rate) * 1000" by simp
  with u have "6 \<le> unat (period_wallclk azx_dev)" by simp
  from half_period_is_too_early[OF this l assms(4)] show ?thesis .
qed

theorem position_ok_half_period_too_early_witness:
  "azx_position_ok ex_chip ex_dev (ex_hw\<lparr>WALLCLK := 12000\<rparr>) = Inr (ex_chip, ex_dev, - 1) \<and>
   azx_interrupt_stream ex_chip ex_dev (ex_hw\<lparr>WALLCLK := 12000\<rparr>) 1 4 True =
     Inr (ex_chip, ex_dev, False, False)"
proof -
  have h1: "period_wallclk ex_dev = (((48 :: u32) * 24000) div 48000) * 1000"
    by (simp add: ex_dev_def)
  have h2: "(2000 :: u32) \<le> 48000" by simp
  have h3: "period_wallclk ex_dev \<noteq> 0" by (simp add: ex_dev_def)
  have h4: "2 * unat (WALLCLK (ex_hw\<lparr>WALLCLK := 12000\<rparr>) - start_wallclk ex_dev) =
            unat (period_wallclk ex_dev)"
    by (simp add: ex_dev_def)
  show ?thesis
    using position_ok_half_period_too_early[OF h1 h2 h3 h4] by simp
qed

text \<open>
  Claim C9.  Starting in \<open>POS_FIX_AUTO\<close>, the first checked read sets the mode of the
  stream's direction to \<open>POS_FIX_LPIB\<close> when the position buffer reads zero or all-ones
  and to \<open>POS_FIX_POSBUF\<close> otherwise; every further checked read succeeds and leaves the
  chip (and with it the mode) exactly as the first read left it.
\<close>

theorem autodetect_commits_once:
  assumes "substream azx_dev = Some st" and "position_fix chip st = POS_FIX_AUTO"
  shows "checked_reads chip azx_dev (hw # hws) =
           replicate (Suc (length hws))
             (chip\<lparr>position_fix := (position_fix chip)(st := autodetect_choice hw)\<rparr>)"
proof -
  let ?c = "chip\<lparr>position_fix := (position_fix chip)(st := autodetect_choice hw)\<rparr>"
  from get_position_auto[OF assms] obtain pos where
    g: "azx_get_position chip azx_dev hw True = Inr (?c, azx_dev, pos)" by blast
  have "position_fix ?c st = POS_FIX_LPIB \<or> position_fix ?c st = POS_FIX_POSBUF"
    by (simp add: autodetect_choice_def)
  from checked_reads_settled[OF assms(1) this] g show ?thesis by simp
qed

theorem autodetect_commits_once_witness:
  "checked_reads ex_chip_auto ex_dev [ex_hw\<lparr>posbuf := 0\<rparr>, ex_hw, ex_hw\<lparr>posbuf := - 1\<rparr>] =
     replicate 3 (ex_chip_auto\<lparr>position_fix :=
        (position_fix ex_chip_auto)(SNDRV_PCM_STREAM_PLAYBACK := POS_FIX_LPIB)\<rparr>)"
proof -
  have h1: "substream ex_dev = Some SNDRV_PCM_STREAM_PLAYBACK" by (simp add: ex_dev_def)
  have h2: "position_fix ex_chip_auto SNDRV_PCM_STREAM_PLAYBACK = POS_FIX_AUTO"
    by (simp add: ex_chip_auto_def)
  show ?thesis
    using autodetect_commits_once[OF h1 h2, of "ex_hw\<lparr>posbuf := 0\<rparr>" "[ex_hw, ex_hw\<lparr>posbuf := - 1\<rparr>]"]
    by (simp add: autodetect_choice_def numeral_3_eq_3)
qed

text \<open>
  Claim C10.  For a stream with a nonzero buffer size, in every position fix mode and with
  or without the check, the position \<open>azx_get_position\<close> returns is strictly below the
  buffer size, and it is the value read by the selected method when that value is below
  the buffer size and 0 otherwise: a raw value at or above the buffer size, the all-ones
  read included, comes back as 0.  The call does return a position unless the stream has
  no substream or the VIA capture path divides by a zero period size.
\<close>

theorem get_position_below_bufsize:
  assumes "0 < bufsize azx_dev"
  shows "case azx_get_position chip azx_dev hw with_check of
           Inr (chip1, azx_dev1, pos) \<Rightarrow>
             pos < bufsize azx_dev \<and> bufsize azx_dev1 = bufsize azx_dev \<and>
             (\<exists>st raw. substream azx_dev = Some st \<and>
                pos = (if bufsize azx_dev \<le> raw then 0 else raw) \<and>
                (raw = - 1 \<longrightarrow> pos = 0) \<and>
                (position_fix chip st = POS_FIX_LPIB \<longrightarrow> raw = SD_LPIB hw) \<and>
                (position_fix chip st = POS_FIX_POSBUF \<or> position_fix chip st = POS_FIX_COMBO
                   \<longrightarrow> raw = posbuf hw) \<and>
                (position_fix chip st = POS_FIX_AUTO \<longrightarrow>
                   raw = (if with_check \<and> (posbuf hw = 0 \<or> posbuf hw = - 1)
                          then SD_LPIB hw else posbuf hw)) \<and>
                (position_fix chip st = POS_FIX_VIACOMBO \<longrightarrow>
                   (\<exists>d. azx_via_get_position azx_dev st hw = Inr (d, raw))))
         | Inl f \<Rightarrow> substream azx_dev = None \<or>
                    (position_fix chip SNDRV_PCM_STREAM_CAPTURE = POS_FIX_VIACOMBO \<and>
                     period_bytes azx_dev = 0)"
proof (cases "substream azx_dev")
  case None
  then show ?thesis by (simp add: azx_get_position_def)
next
  case (Some st)
  have top: "bufsize azx_dev \<le> - 1"
    by simp
  show ?thesis
  proof (cases "position_fix chip st")
    case POS_FIX_AUTO
    with Some assms top show ?thesis
      by (auto simp: azx_get_position_def Let_def)
  next
    case POS_FIX_LPIB
    with Some assms top show ?thesis
      by (auto simp: azx_get_position_def Let_def)
  next
    case POS_FIX_POSBUF
    with Some assms top show ?thesis
      by (auto simp: azx_get_position_def Let_def)
  next
    case POS_FIX_VIACOMBO
    show ?thesis
    proof (cases "azx_via_get_position azx_dev st hw")
      case (Inl f)
      from via_get_position_fault[OF Inl] Some POS_FIX_VIACOMBO Inl show ?thesis
        by (simp add: azx_get_position_def)
    next
      case (Inr x)
      obtain d raw where x: "x = (d, raw)" by (cases x)
      from via_get_position_fields[OF Inr[unfolded x]] have b: "bufsize d = bufsize azx_dev" .
      from Some POS_FIX_VIACOMBO Inr x b assms top show ?thesis
        by (auto simp: azx_get_position_def Let_def)
    qed
  next
    case POS_FIX_COMBO
    with Some assms top show ?thesis
      by (auto simp: azx_get_position_def Let_def)
  qed
qed

text \<open>
  Four reads of a 4096-byte buffer: an all-ones link position, a position buffer value
  beyond the buffer, an all-ones position buffer under auto-detection, and the VIA method
  on a playback stream.
\<close>

theorem get_position_below_bufsize_witness:
  "azx_get_position ex_chip ex_dev (ex_hw\<lparr>SD_LPIB := - 1\<rparr>) False = Inr (ex_chip, ex_dev, 0) \<and>
   (0 :: u32) < bufsize ex_dev \<and>
   fst (snd (projr (azx_get_position ex_chip_auto ex_dev (ex_hw\<lparr>posbuf := 5000\<rparr>) False))) = ex_dev \<and>
   snd (snd (projr (azx_get_position ex_chip_auto ex_dev (ex_hw\<lparr>posbuf := 5000\<rparr>) False))) = 0 \<and>
   snd (snd (projr (azx_get_position ex_chip_auto ex_dev (ex_hw\<lparr>posbuf := - 1\<rparr>) True))) = 600 \<and>
   snd (snd (projr (azx_get_position ex_chip_via ex_dev ex_hw True))) = 600"
proof -
  have h: "0 < bufsize ex_dev" by (simp add: ex_dev_def)
  have e1: "azx_get_position ex_chip ex_dev (ex_hw\<lparr>SD_LPIB := - 1\<rparr>) False = Inr (ex_chip, ex_dev, 0)"
    by (simp add: ex_chip_def ex_dev_def ex_hw_def azx_get_position_def Let_def)
  have e2: "azx_get_position ex_chip_auto ex_dev (ex_hw\<lparr>posbuf := 5000\<rparr>) False =
              Inr (ex_chip_auto, ex_dev, 0)"
    by (simp add: ex_chip_auto_def ex_dev_def ex_hw_def azx_get_position_def Let_def)
  have e3: "azx_get_position ex_chip_auto ex_dev (ex_hw\<lparr>posbuf := - 1\<rparr>) True =
              Inr (ex_chip_auto\<lparr>position_fix :=
                     (position_fix ex_chip_auto)(SNDRV_PCM_STREAM_PLAYBACK := POS_FIX_LPIB)\<rparr>,
                   ex_dev, 600)"
    by (simp add: ex_chip_auto_def ex_dev_def ex_hw_def azx_get_position_def Let_def)
  have e4: "azx_get_position ex_chip_via ex_dev ex_hw True = Inr (ex_chip_via, ex_dev, 600)"
    by (simp add: ex_chip_via_def ex_dev_def ex_hw_def azx_get_position_def
          azx_via_get_position_def Let_def)
  note t1 = get_position_below_bufsize[OF h, of ex_chip "ex_hw\<lparr>SD_LPIB := - 1\<rparr>" False]
  note t2 = get_position_below_bufsize[OF h, of ex_chip_auto "ex_hw\<lparr>posbuf := 5000\<rparr>" False]
  note t3 = get_position_below_bufsize[OF h, of ex_chip_auto "ex_hw\<lparr>posbuf := - 1\<rparr>" True]
  note t4 = get_position_below_bufsize[OF h, of ex_chip_via ex_hw True]
  have "fst (snd (projr (azx_get_position ex_chip_auto ex_dev (ex_hw\<lparr>posbuf := 5000\<rparr>) False))) = ex_dev"
    using t2 by (simp add: e2)
  moreover have "snd (snd (projr (azx_get_position ex_chip_auto ex_dev (ex_hw\<lparr>posbuf := 5000\<rparr>) False))) = 0"
    using t2 by (simp add: e2)
  moreover have "snd (snd (projr (azx_get_position ex_chip_auto ex_dev (ex_hw\<lparr>posbuf := - 1\<rparr>) True))) = 600"
    using t3 by (simp add: e3)
  moreover have "snd (snd (projr (azx_get_position ex_chip_via ex_dev ex_hw True))) = 600"
    using t4 by (simp add: e4)
  moreover have "azx_get_position ex_chip ex_dev (ex_hw\<lparr>SD_LPIB := - 1\<rparr>) False = Inr (ex_chip, ex_dev, 0)"
    using t1 by (simp add: e1)
  ultimately show ?thesis using h by blast
qed

section \<open>Properties of the command transport\<close>


lemma rirb_wait_got:
  "snd (rirb_wait dp a sched s) = (rirb_cmds (fst (fst (rirb_wait dp a sched s))) a = 0)"
  by (induction sched arbitrary: s) (auto simp: Let_def)


lemma rirb_get_response_again_unfold:
  assumes "rirb_wait do_poll addr (case rounds of [] \<Rightarrow> [] | r # _ \<Rightarrow> r) s = ((chip, link), got)"
  shows "rirb_get_response_again do_poll addr rounds irq_ok s =
         (if got then
            ((chip\<lparr>bus := (bus chip)\<lparr>rirb_error := False\<rparr>,
                    poll_count := (if \<not> do_poll then 0 else poll_count chip)\<rparr>, link),
             rirb_res chip addr)
          else if \<not> polling_mode chip \<and> poll_count chip < 2 then
            rirb_get_response_again True addr (tl rounds) irq_ok
              (chip\<lparr>poll_count := poll_count chip + 1\<rparr>, link)
          else if \<not> polling_mode chip then
            rirb_get_response_again do_poll addr (tl rounds) irq_ok
              (chip\<lparr>polling_mode := True\<rparr>, link)
          else if msi chip then
            (if \<not> irq_ok
             then ((chip\<lparr>irq := - 1, msi := False,
                         bus := (bus chip)\<lparr>rirb_error := True\<rparr>\<rparr>, link), - 1)
             else rirb_get_response_again do_poll addr (tl rounds) irq_ok
                    (chip\<lparr>irq := irq_id chip, msi := False\<rparr>, link))
          else if probing chip then ((chip, link), - 1)
          else
            (let bus1 = (bus chip)\<lparr>rirb_error := True\<rparr> in
             if allow_bus_reset bus1 \<and> \<not> response_reset bus1 \<and> \<not> in_reset bus1
             then ((chip\<lparr>bus := bus1\<lparr>response_reset := True\<rparr>\<rparr>, link), - 1)
             else
               (let chip1 = azx_free_cmd_io
                              (chip\<lparr>single_cmd := True, bus := bus1\<lparr>response_reset := False\<rparr>\<rparr>)
                in ((chip1\<lparr>GCTL := GCTL chip1 AND NOT ICH6_GCTL_UNSOL\<rparr>, link), - 1))))"
  using assms by (subst rirb_get_response_again.simps) simp

lemma hw_steps_preserves:
  assumes step: "\<And>ev s. Q ev \<Longrightarrow> P s \<Longrightarrow> P (hw_step ev s)"
  shows "list_all Q evs \<Longrightarrow> P s \<Longrightarrow> P (hw_steps evs s)"
  unfolding hw_steps_def
proof (induction evs arbitrary: s)
  case Nil
  then show ?case by simp
next
  case (Cons ev evs)
  from Cons.prems have "Q ev" "list_all Q evs" by simp_all
  from Cons.IH[OF this(2) step[OF this(1) Cons.prems(2)]] show ?case by simp
qed

lemma rirb_pass_preserves:
  assumes step: "\<And>ev s. Q ev \<Longrightarrow> P s \<Longrightarrow> P (hw_step ev s)"
    and upd: "\<And>c l. P (c, l) \<Longrightarrow> P (azx_update_rirb c, l)"
    and "list_all Q evs" and "P s"
  shows "P (rirb_pass dp evs s)"
proof -
  obtain c l where h: "hw_steps evs s = (c, l)" by (cases "hw_steps evs s")
  from hw_steps_preserves[of Q P evs s, OF step assms(3,4)] h have "P (c, l)" by simp
  with h upd show ?thesis by (simp add: rirb_pass_def)
qed

lemma rirb_wait_preserves:
  assumes step: "\<And>ev s. Q ev \<Longrightarrow> P s \<Longrightarrow> P (hw_step ev s)"
    and upd: "\<And>c l. P (c, l) \<Longrightarrow> P (azx_update_rirb c, l)"
  shows "list_all (list_all Q) sched \<Longrightarrow> P s \<Longrightarrow> P (fst (rirb_wait dp a sched s))"
proof (induction sched arbitrary: s)
  case Nil
  have "list_all Q []" by simp
  from rirb_pass_preserves[of Q P "[]" s dp, OF step upd this Nil(2)] show ?case
    by (simp add: Let_def)
next
  case (Cons evs rest)
  from Cons.prems have q: "list_all Q evs" "list_all (list_all Q) rest" by simp_all
  from rirb_pass_preserves[of Q P evs s dp, OF step upd q(1) Cons.prems(2)]
  have p: "P (rirb_pass dp evs s)" .
  from Cons.IH[OF q(2) p] p show ?case by (simp add: Let_def)
qed

lemma rirb_get_response_again_preserves:
  assumes step: "\<And>ev s. Q ev \<Longrightarrow> P s \<Longrightarrow> P (hw_step ev s)"
    and upd: "\<And>c l. P (c, l) \<Longrightarrow> P (azx_update_rirb c, l)"
    and flags: "\<And>c c1 l. P (c, l) \<Longrightarrow> ring_same c c1 \<Longrightarrow> P (c1, l)"
  shows "list_all (list_all (list_all Q)) rounds \<Longrightarrow> P s \<Longrightarrow>
         P (fst (rirb_get_response_again dp a rounds irq_ok s))"
proof (induction dp a rounds irq_ok s rule: rirb_get_response_again.induct)
  case (1 do_poll addr rounds irq_ok s)
  let ?sched = "case rounds of [] \<Rightarrow> [] | r # _ \<Rightarrow> r"
  obtain chip link got where w: "rirb_wait do_poll addr ?sched s = ((chip, link), got)"
    by (metis prod.collapse)
  have qs: "list_all (list_all Q) ?sched" using "1.prems"(1) by (cases rounds) simp_all
  have qt: "list_all (list_all (list_all Q)) (tl rounds)" using "1.prems"(1) by (cases rounds) simp_all
  from rirb_wait_preserves[of Q P ?sched s do_poll addr, OF step upd qs "1.prems"(2)] w
  have p: "P (chip, link)" by simp
  note IH = "1.IH"[OF w[symmetric] refl]
  note u = rirb_get_response_again_unfold[OF w, of irq_ok]
  have f: "P (c1, link)" if "ring_same chip c1" for c1
    using flags[OF p that] .
  consider (g) got
    | (a) "\<not> got" "\<not> polling_mode chip \<and> poll_count chip < 2"
    | (b) "\<not> got" "\<not> (\<not> polling_mode chip \<and> poll_count chip < 2)" "\<not> polling_mode chip"
    | (c1) "\<not> got" "polling_mode chip" "msi chip" "\<not> irq_ok"
    | (c2) "\<not> got" "polling_mode chip" "msi chip" "irq_ok"
    | (d) "\<not> got" "polling_mode chip" "\<not> msi chip"
    by blast
  then show ?case
  proof cases
    case g
    then show ?thesis unfolding u by (simp add: f ring_same_def)
  next
    case a
    have "P (chip\<lparr>poll_count := poll_count chip + 1\<rparr>, link)" by (rule f) (simp add: ring_same_def)
    from IH(1)[OF a qt this] a show ?thesis unfolding u by simp
  next
    case b
    have "P (chip\<lparr>polling_mode := True\<rparr>, link)" by (rule f) (simp add: ring_same_def)
    from IH(2)[OF b qt this] b show ?thesis unfolding u by simp
  next
    case c1
    then show ?thesis unfolding u by (simp add: f ring_same_def)
  next
    case c2
    have "P (chip\<lparr>irq := irq_id chip, msi := False\<rparr>, link)" by (rule f) (simp add: ring_same_def)
    moreover have "\<not> (\<not> polling_mode chip \<and> poll_count chip < 2)" "\<not> \<not> polling_mode chip" "\<not> \<not> irq_ok"
      using c2 by simp_all
    ultimately show ?thesis using IH(3)[OF c2(1) _ _ c2(3) _ qt] c2 unfolding u by simp
  next
    case d
    then show ?thesis unfolding u
      by (auto simp: Let_def azx_free_cmd_io_def ring_same_def intro!: f)
  qed
qed

lemma probing_timeout_again:
  "rirb_get_response_again dp addr rounds irq_ok s = (s1, r) \<Longrightarrow>
   probing (fst s) \<Longrightarrow> rirb_cmds (fst s1) addr \<noteq> 0 \<Longrightarrow>
   r = - 1 \<and>
   rirb_error (bus (fst s1)) = (if msi (fst s) \<and> \<not> irq_ok then True else rirb_error (bus (fst s))) \<and>
   response_reset (bus (fst s1)) = response_reset (bus (fst s)) \<and>
   single_cmd (fst s1) = single_cmd (fst s) \<and> probing (fst s1) \<and>
   polling_mode (fst s1) \<and> \<not> msi (fst s1)"
proof (induction dp addr rounds irq_ok s rule: rirb_get_response_again.induct)
  case (1 do_poll addr rounds irq_ok s)
  let ?sched = "case rounds of [] \<Rightarrow> [] | r # _ \<Rightarrow> r"
  obtain chip link got where w: "rirb_wait do_poll addr ?sched s = ((chip, link), got)"
    by (metis prod.collapse)
  from same_flags_rirb_wait[of s do_poll addr ?sched] w
  have sf: "same_flags (fst s) chip" by simp
  from rirb_wait_got[of do_poll addr ?sched s] w
  have got: "got = (rirb_cmds chip addr = 0)" by simp
  note IH = "1.IH"[OF w[symmetric] refl]
  from "1.prems"(1) w
  have e: "(if got then
            ((chip\<lparr>bus := (bus chip)\<lparr>rirb_error := False\<rparr>,
                    poll_count := (if \<not> do_poll then 0 else poll_count chip)\<rparr>, link),
             rirb_res chip addr)
          else if \<not> polling_mode chip \<and> poll_count chip < 2 then
            rirb_get_response_again True addr (tl rounds) irq_ok
              (chip\<lparr>poll_count := poll_count chip + 1\<rparr>, link)
          else if \<not> polling_mode chip then
            rirb_get_response_again do_poll addr (tl rounds) irq_ok
              (chip\<lparr>polling_mode := True\<rparr>, link)
          else if msi chip then
            (if \<not> irq_ok
             then ((chip\<lparr>irq := - 1, msi := False,
                         bus := (bus chip)\<lparr>rirb_error := True\<rparr>\<rparr>, link), - 1)
             else rirb_get_response_again do_poll addr (tl rounds) irq_ok
                    (chip\<lparr>irq := irq_id chip, msi := False\<rparr>, link))
          else if probing chip then ((chip, link), - 1)
          else
            (let bus1 = (bus chip)\<lparr>rirb_error := True\<rparr> in
             if allow_bus_reset bus1 \<and> \<not> response_reset bus1 \<and> \<not> in_reset bus1
             then ((chip\<lparr>bus := bus1\<lparr>response_reset := True\<rparr>\<rparr>, link), - 1)
             else
               (let chip1 = azx_free_cmd_io
                              (chip\<lparr>single_cmd := True, bus := bus1\<lparr>response_reset := False\<rparr>\<rparr>)
                in ((chip1\<lparr>GCTL := GCTL chip1 AND NOT ICH6_GCTL_UNSOL\<rparr>, link), - 1)))) = (s1, r)"
    by (subst (asm) rirb_get_response_again.simps) simp
  have ng: "\<not> got"
  proof
    assume got
    with e have "fst s1 = chip\<lparr>bus := (bus chip)\<lparr>rirb_error := False\<rparr>,
                    poll_count := (if \<not> do_poll then 0 else poll_count chip)\<rparr>"
      by auto
    with \<open>got\<close> got "1.prems"(3) show False by simp
  qed
  from sf "1.prems"(2) have pr: "probing chip"
    by (simp add: same_flags_def)
  from sf have fl: "msi chip = msi (fst s)" "rirb_error (bus chip) = rirb_error (bus (fst s))"
    "response_reset (bus chip) = response_reset (bus (fst s))"
    "single_cmd chip = single_cmd (fst s)"
    by (simp_all add: same_flags_def)
  consider (a) "\<not> polling_mode chip \<and> poll_count chip < 2"
    | (b) "\<not> (\<not> polling_mode chip \<and> poll_count chip < 2)" "\<not> polling_mode chip"
    | (c) "polling_mode chip" "msi chip" "irq_ok"
    | (c') "polling_mode chip" "msi chip" "\<not> irq_ok"
    | (d) "polling_mode chip" "\<not> msi chip"
    by blast
  then show ?case
  proof cases
    case a
    with e ng have "rirb_get_response_again True addr (tl rounds) irq_ok
              (chip\<lparr>poll_count := poll_count chip + 1\<rparr>, link) = (s1, r)" by simp
    from IH(1)[OF ng a this] pr "1.prems"(3) fl show ?thesis
      by simp
  next
    case b
    with e ng have "rirb_get_response_again do_poll addr (tl rounds) irq_ok
              (chip\<lparr>polling_mode := True\<rparr>, link) = (s1, r)" by simp
    from IH(2)[OF ng b this] pr "1.prems"(3) fl show ?thesis
      by simp
  next
    case c
    with e ng have "rirb_get_response_again do_poll addr (tl rounds) irq_ok
                    (chip\<lparr>irq := irq_id chip, msi := False\<rparr>, link) = (s1, r)" by simp
    moreover have "\<not> \<not> irq_ok" using c(3) by simp
    moreover have "\<not> (\<not> polling_mode chip \<and> poll_count chip < 2)" "\<not> \<not> polling_mode chip"
      using c by simp_all
    ultimately show ?thesis
      using IH(3)[OF ng _ _ c(2)] pr "1.prems"(3) fl c(3)
      by simp
  next
    case c'
    with e ng have "s1 = (chip\<lparr>irq := - 1, msi := False,
                         bus := (bus chip)\<lparr>rirb_error := True\<rparr>\<rparr>, link)" "r = - 1"
      by simp_all
    with c' pr fl show ?thesis by simp
  next
    case d
    with e ng pr have "s1 = (chip, link)" "r = - 1" by simp_all
    with d pr fl show ?thesis by simp
  qed
qed


subsection \<open>Index bounds\<close>

lemma unat_azx_readb: "unat (azx_readb r) = unat r mod 256"
  by (simp add: azx_readb_def unsigned_ucast_eq take_bit_eq_mod)

lemma unat_of_nat_u16_mod: "unat (of_nat (n mod 256) :: u16) = n mod 256"
proof -
  have "n mod 256 < 65536"
    by (rule less_trans[of _ 256]) simp_all
  then show ?thesis by (simp add: unat_of_nat)
qed

lemma CORBWP_send:
  "unat (CORBWP (azx_corb_send_cmd chip val)) = (unat (CORBWP chip) mod 256 + 1) mod 256"
  by (simp add: azx_corb_send_cmd_def Let_def ICH6_MAX_CORB_ENTRIES_def unat_azx_readb
        unat_of_nat_u16_mod)

lemma rirb_rp_send: "rirb_rp (azx_corb_send_cmd chip val) = rirb_rp chip"
  by (simp add: azx_corb_send_cmd_def Let_def)

lemma CORBWP_rirb_entry: "CORBWP (rirb_entry chip) = CORBWP chip"
  by (simp add: rirb_entry_def Let_def)

lemma idx_ok_rirb_drain:
  "idx_ok (c, l) \<Longrightarrow> idx_ok (rirb_drain wp c, l)"
proof (induction wp c rule: rirb_drain.induct)
  case (1 wp chip)
  show ?case
  proof (cases "unat (rirb_rp chip) \<noteq> unat wp")
    case True
    have "idx_ok (rirb_entry chip, l)"
      using "1.prems" by (simp add: idx_ok_def CORBWP_rirb_entry rirb_rp_rirb_entry)
    from "1.IH"[OF True this] True show ?thesis by (subst rirb_drain.simps) simp
  next
    case False
    with "1.prems" show ?thesis by (subst rirb_drain.simps) simp
  qed
qed

lemma idx_ok_update_rirb: "idx_ok (c, l) \<Longrightarrow> idx_ok (azx_update_rirb c, l)"
proof -
  assume a: "idx_ok (c, l)"
  have "idx_ok (c\<lparr>rirb_wp := w\<rparr>, l)" for w using a by (simp add: idx_ok_def)
  from idx_ok_rirb_drain[OF this] a show ?thesis
    by (simp add: azx_update_rirb_def Let_def)
qed

lemma idx_ok_hw_step: "idx_ok s \<Longrightarrow> idx_ok (hw_step ev s)"
proof (cases s)
  case (Pair c l)
  assume a: "idx_ok s"
  have d: "idx_ok (rirb_deliver c r e, l1)" for r e l1
    using a Pair by (simp add: idx_ok_def rirb_deliver_def Let_def)
  have n: "idx_ok (c, l)" using a Pair by simp
  show ?thesis
    using Pair d n idx_ok_update_rirb[OF n] by (cases ev) simp_all
qed

lemma idx_ok_ring_same: "idx_ok (c, l) \<Longrightarrow> ring_same c c1 \<Longrightarrow> idx_ok (c1, l)"
  by (simp add: idx_ok_def ring_same_def)

lemma idx_ok_ring_step: "idx_ok s \<Longrightarrow> idx_ok (ring_step x s)"
proof (cases x)
  case (Ring_Send val)
  assume "idx_ok s"
  then show ?thesis using Ring_Send
    by (cases s) (simp add: idx_ok_def Let_def CORBWP_send rirb_rp_send)
next
  case (Ring_Receive addr rounds irq_ok)
  assume a: "idx_ok s"
  have t: "list_all (list_all (list_all (\<lambda>_. True))) rounds"
    by (simp add: list_all_iff)
  have "idx_ok (fst (rirb_get_response_again False addr rounds irq_ok s))"
    by (rule rirb_get_response_again_preserves[where Q = "\<lambda>_. True" and P = idx_ok, OF _ _ _ t a])
       (simp_all add: idx_ok_hw_step idx_ok_update_rirb idx_ok_ring_same)
  then show ?thesis using Ring_Receive by (simp add: azx_rirb_get_response_def)
next
  case (Ring_Hw ev)
  assume "idx_ok s"
  then show ?thesis using Ring_Hw by (simp add: idx_ok_hw_step)
qed

lemma idx_ok_ring_run: "idx_ok s \<Longrightarrow> idx_ok (ring_run xs s)"
  unfolding ring_run_def
  by (induction xs arbitrary: s) (simp_all add: idx_ok_ring_step)

lemma idx_ok_ring_init: "idx_ok (ring_init chip)"
  by (simp add: idx_ok_def ring_init_def azx_init_cmd_io_def)

lemma CORBWP_sends:
  "unat (CORBWP (fst s)) < 256 \<Longrightarrow>
   unat (CORBWP (fst (ring_run (map Ring_Send vs) s))) = (unat (CORBWP (fst s)) + length vs) mod 256"
  unfolding ring_run_def
proof (induction vs arbitrary: s)
  case Nil
  then show ?case by simp
next
  case (Cons v vs)
  obtain c l where s: "s = (c, l)" by (cases s)
  have e: "unat (CORBWP (fst (ring_step (Ring_Send v) s))) = (unat (CORBWP (fst s)) + 1) mod 256"
    using Cons.prems by (simp add: s Let_def CORBWP_send)
  then have "unat (CORBWP (fst (ring_step (Ring_Send v) s))) < 256" by simp
  from Cons.IH[OF this] e show ?case
    by (simp add: mod_simps)
qed

text \<open>
  Claim C3.  In every state reached from \<open>azx_init_cmd_io\<close> by any sequence of sends,
  receives and hardware events (injected responses included), the CORB write pointer and
  the RIRB read pointer are below 256; and from a state whose CORB write pointer is 0,
  \<open>256 + k\<close> sends leave the write pointer at \<open>k mod 256\<close>.
\<close>

theorem ring_indices_in_range:
  assumes "length vs = 256 + k" and "CORBWP (fst s) = 0"
  shows "unat (CORBWP (fst (ring_run xs (ring_init chip)))) < 256 \<and>
         unat (rirb_rp (fst (ring_run xs (ring_init chip)))) < 256 \<and>
         unat (CORBWP (fst (ring_run (map Ring_Send vs) s))) = k mod 256"
proof -
  from idx_ok_ring_run[OF idx_ok_ring_init, of xs chip]
  have a: "unat (CORBWP (fst (ring_run xs (ring_init chip)))) < 256 \<and>
   unat (rirb_rp (fst (ring_run xs (ring_init chip)))) < 256"
    by (simp add: idx_ok_def)
  have b: "unat (CORBWP (fst (ring_run (map Ring_Send vs) s))) = k mod 256"
    using assms by (simp add: CORBWP_sends)
  show ?thesis using a b by simp
qed

theorem ring_indices_in_range_witness:
  "unat (CORBWP (fst (ring_run [Ring_Send 0x300F0000, Ring_Hw (Inject 0 0x10), Ring_Receive 3 [] True]
                        (ring_init ex_azx)))) < 256 \<and>
   unat (rirb_rp (fst (ring_run [Ring_Send 0x300F0000, Ring_Hw (Inject 0 0x10), Ring_Receive 3 [] True]
                        (ring_init ex_azx)))) < 256 \<and>
   unat (CORBWP (fst (ring_run (map Ring_Send (replicate 258 0x300F0000)) (ring_init ex_azx)))) = 2"
proof -
  have h1: "length (replicate 258 (0x300F0000 :: u32)) = 256 + 2" by simp
  have h2: "CORBWP (fst (ring_init ex_azx)) = 0"
    by (simp add: ring_init_def azx_init_cmd_io_def)
  have m: "(2 :: nat) mod 256 = 2" by simp
  show ?thesis
    using ring_indices_in_range[OF h1 h2,
        of "[Ring_Send 0x300F0000, Ring_Hw (Inject 0 0x10), Ring_Receive 3 [] True]" ex_azx]
    unfolding m .
qed

subsection \<open>Spurious responses\<close>

text \<open>
  Claim C2.  One pass of the drain loop handles the response pair at the next read
  position.  If its unsolicited bit is clear and the pending counter of its codec address
  is zero, the pass leaves all pending counters and all stored responses as they were and
  only reports the pair as spurious.  Conversely, whenever a pass changes a counter or a
  stored response, the unsolicited bit was clear and the counter of the address was
  nonzero.
\<close>

theorem spurious_response_only_logged:
  "(rirb_next_res_ex chip AND ICH6_RIRB_EX_UNSOL_EV = 0 \<and>
    rirb_cmds chip (azx_response_addr (rirb_next_res_ex chip)) = 0 \<longrightarrow>
      rirb_cmds (rirb_entry chip) = rirb_cmds chip \<and> rirb_res (rirb_entry chip) = rirb_res chip \<and>
      spurious (rirb_entry chip) = spurious chip @ [(rirb_next_res chip, rirb_next_res_ex chip)]) \<and>
   (rirb_cmds (rirb_entry chip) \<noteq> rirb_cmds chip \<or> rirb_res (rirb_entry chip) \<noteq> rirb_res chip \<longrightarrow>
      rirb_next_res_ex chip AND ICH6_RIRB_EX_UNSOL_EV = 0 \<and>
      rirb_cmds chip (azx_response_addr (rirb_next_res_ex chip)) \<noteq> 0)"
  by (auto simp: rirb_entry_def rirb_next_res_ex_def rirb_next_res_def Let_def)

lemma ex_spurious_fields:
  "rirb_rp ex_spurious = 0" "rirb_buf ex_spurious 2 = 0x1234" "rirb_buf ex_spurious 3 = 5"
  "rirb_cmds ex_spurious 5 = 0" "spurious ex_spurious = []"
  by (simp_all add: ex_spurious_def ex_azx_def)

lemma ex_matched_fields:
  "rirb_rp ex_matched = 0" "rirb_buf ex_matched 2 = 0x1234" "rirb_buf ex_matched 3 = 5"
  "rirb_cmds ex_matched 5 = 1" "rirb_res ex_matched 5 = 0"
  by (simp_all add: ex_matched_def ex_spurious_def ex_azx_def)

lemma response_addr_5: "azx_response_addr 5 = 5"
  by (simp add: azx_response_addr_def AZX_MAX_CODECS_def)

lemma unsol_clear_5: "(5 :: u32) AND ICH6_RIRB_EX_UNSOL_EV = 0"
  by (simp add: ICH6_RIRB_EX_UNSOL_EV_def)

lemma ex_spurious_next:
  "rirb_next_res_ex ex_spurious = 5" "rirb_next_res ex_spurious = 0x1234"
  by (simp_all add: rirb_next_res_ex_def rirb_next_res_def ex_spurious_fields ICH6_MAX_RIRB_ENTRIES_def)

lemma ex_matched_next:
  "rirb_next_res_ex ex_matched = 5" "rirb_next_res ex_matched = 0x1234"
  by (simp_all add: rirb_next_res_ex_def rirb_next_res_def ex_matched_fields ICH6_MAX_RIRB_ENTRIES_def)

lemma ex_matched_entry_res: "rirb_res (rirb_entry ex_matched) 5 = 0x1234"
  by (simp add: rirb_entry_def Let_def ex_matched_fields ICH6_MAX_RIRB_ENTRIES_def response_addr_5
        unsol_clear_5)

theorem spurious_response_only_logged_witness:
  "rirb_next_res_ex ex_spurious AND ICH6_RIRB_EX_UNSOL_EV = 0 \<and>
   rirb_cmds ex_spurious (azx_response_addr (rirb_next_res_ex ex_spurious)) = 0 \<and>
   rirb_cmds (rirb_entry ex_spurious) = rirb_cmds ex_spurious \<and>
   rirb_res (rirb_entry ex_spurious) = rirb_res ex_spurious \<and>
   spurious (rirb_entry ex_spurious) = [(0x1234, 5)] \<and>
   rirb_res (rirb_entry ex_matched) \<noteq> rirb_res ex_matched \<and>
   rirb_cmds ex_matched (azx_response_addr (rirb_next_res_ex ex_matched)) \<noteq> 0"
proof -
  have h1: "rirb_next_res_ex ex_spurious AND ICH6_RIRB_EX_UNSOL_EV = 0"
    by (simp add: ex_spurious_next unsol_clear_5)
  have h2: "rirb_cmds ex_spurious (azx_response_addr (rirb_next_res_ex ex_spurious)) = 0"
    by (simp add: ex_spurious_next response_addr_5 ex_spurious_fields)
  have h3: "rirb_res (rirb_entry ex_matched) \<noteq> rirb_res ex_matched"
  proof
    assume "rirb_res (rirb_entry ex_matched) = rirb_res ex_matched"
    then have "rirb_res (rirb_entry ex_matched) 5 = rirb_res ex_matched 5" by simp
    then show False by (simp add: ex_matched_entry_res ex_matched_fields)
  qed
  from spurious_response_only_logged[of ex_spurious] h1 h2
  have a: "rirb_cmds (rirb_entry ex_spurious) = rirb_cmds ex_spurious \<and>
      rirb_res (rirb_entry ex_spurious) = rirb_res ex_spurious \<and>
      spurious (rirb_entry ex_spurious) =
        spurious ex_spurious @ [(rirb_next_res ex_spurious, rirb_next_res_ex ex_spurious)]"
    by blast
  from spurious_response_only_logged[of ex_matched] h3
  have b: "rirb_cmds ex_matched (azx_response_addr (rirb_next_res_ex ex_matched)) \<noteq> 0"
    by blast
  have c: "spurious ex_spurious @ [(rirb_next_res ex_spurious, rirb_next_res_ex ex_spurious)] =
           [(0x1234, 5)]"
    by (simp add: ex_spurious_next ex_spurious_fields)
  show ?thesis using h1 h2 h3 a b unfolding c by blast
qed







lemma ex_probing_result:
  "azx_rirb_get_response 3 [] True ex_probing =
     ((ex_azx\<lparr>rirb_cmds := (\<lambda>_. 0)(3 := 1), probing := True, poll_count := 2,
              polling_mode := True, irq := 16, msi := False\<rparr>, ex_link), - 1)"
  by (simp add: azx_rirb_get_response_def rirb_get_response_again.simps ex_probing_def ex_azx_def
        rirb_pass_def hw_steps_def azx_update_rirb_def azx_readb_def Let_def)




text \<open>
  Claim C5, as amended.  When \<open>azx_rirb_get_response\<close> is called during codec probing and returns with
  the pending counter of the address still nonzero, it returns -1, has been through the
  polling-mode and MSI stages, and leaves \<open>response_reset\<close> and \<open>single_cmd\<close> as they
  were.  It leaves \<open>rirb_error\<close> as it was too, except when MSI was enabled and
  \<open>azx_acquire_irq\<close> fails after MSI has been disabled: then it returns from the MSI stage
  with \<open>rirb_error\<close> set.
\<close>

theorem probing_timeout_returns_error:
  assumes "probing (fst s)" and "azx_rirb_get_response addr rounds irq_ok s = (s1, r)"
    and "rirb_cmds (fst s1) addr \<noteq> 0"
  shows "r = - 1 \<and>
         rirb_error (bus (fst s1)) =
           (if msi (fst s) \<and> \<not> irq_ok then True else rirb_error (bus (fst s))) \<and>
         response_reset (bus (fst s1)) = response_reset (bus (fst s)) \<and>
         single_cmd (fst s1) = single_cmd (fst s) \<and> polling_mode (fst s1) \<and> \<not> msi (fst s1)"
  using probing_timeout_again[OF assms(2)[unfolded azx_rirb_get_response_def] assms(1,3)]
  by simp

theorem probing_timeout_returns_error_witness:
  "snd (azx_rirb_get_response 3 [] True ex_probing) = - 1 \<and>
   \<not> rirb_error (bus (fst (fst (azx_rirb_get_response 3 [] True ex_probing)))) \<and>
   \<not> response_reset (bus (fst (fst (azx_rirb_get_response 3 [] True ex_probing)))) \<and>
   \<not> single_cmd (fst (fst (azx_rirb_get_response 3 [] True ex_probing)))"
proof -
  have h1: "probing (fst ex_probing)" by (simp add: ex_probing_def)
  have h3: "rirb_cmds (fst (ex_azx\<lparr>rirb_cmds := (\<lambda>_. 0)(3 := 1), probing := True, poll_count := 2,
              polling_mode := True, irq := 16, msi := False\<rparr>, ex_link)) 3 \<noteq> 0"
    by simp
  have f: "\<not> rirb_error (bus (fst ex_probing))" "\<not> response_reset (bus (fst ex_probing))"
    "\<not> single_cmd (fst ex_probing)"
    by (simp_all add: ex_probing_def ex_azx_def)
  show ?thesis
    using probing_timeout_returns_error[OF h1 ex_probing_result h3] f
    by (simp add: ex_probing_result)
qed

text \<open>
  Claim C5 as stated fails.  The same receive when \<open>azx_acquire_irq\<close> fails: probing is
  set, the counter of address 3 is still nonzero at the end, the call returns -1, and the
  ring is marked errored.
\<close>

theorem probing_irq_failure_counterexample:
  "probing (fst ex_probing) \<and> \<not> rirb_error (bus (fst ex_probing)) \<and>
   azx_rirb_get_response 3 [] False ex_probing =
     ((ex_azx\<lparr>rirb_cmds := (\<lambda>_. 0)(3 := 1), probing := True, poll_count := 2,
              polling_mode := True, irq := - 1, msi := False,
              bus := (bus ex_azx)\<lparr>rirb_error := True\<rparr>\<rparr>, ex_link), - 1) \<and>
   rirb_cmds (fst (fst (azx_rirb_get_response 3 [] False ex_probing))) 3 \<noteq> 0 \<and>
   rirb_error (bus (fst (fst (azx_rirb_get_response 3 [] False ex_probing))))"
proof -
  have r: "azx_rirb_get_response 3 [] False ex_probing =
     ((ex_azx\<lparr>rirb_cmds := (\<lambda>_. 0)(3 := 1), probing := True, poll_count := 2,
              polling_mode := True, irq := - 1, msi := False,
              bus := (bus ex_azx)\<lparr>rirb_error := True\<rparr>\<rparr>, ex_link), - 1)"
    by (simp add: azx_rirb_get_response_def rirb_get_response_again.simps ex_probing_def ex_azx_def
          rirb_pass_def hw_steps_def azx_update_rirb_def azx_readb_def Let_def)
  have f: "probing (fst ex_probing)" "\<not> rirb_error (bus (fst ex_probing))"
    by (simp_all add: ex_probing_def ex_azx_def)
  from f show ?thesis
    unfolding r by simp
qed

section \<open>The round trip through the ring\<close>

subsection \<open>The unhandled entries\<close>

lemma hw_n_lt: "hw_n chip < 256"
  by (simp add: hw_n_def unat_u8_lt)

lemma length_pending: "length (rirb_pending chip) = npend chip"
  by (simp add: rirb_pending_def)

lemma npend_step:
  fixes w r :: nat
  assumes "w < 256" "r < 256" "r \<noteq> w"
  shows "Suc ((256 + w - (r + 1) mod 256) mod 256) = (256 + w - r) mod 256"
proof (cases "r < w")
  case True
  then have a: "(r + 1) mod 256 = r + 1" using assms by simp
  have b: "(256 + w - (r + 1)) mod 256 = w - (r + 1)"
    using True assms by (simp add: mod_if)
  have c: "(256 + w - r) mod 256 = w - r"
    using True assms by (simp add: mod_if)
  show ?thesis unfolding a b c using True by simp
next
  case False
  with assms have gt: "w < r" by simp
  have c: "(256 + w - r) mod 256 = 256 + w - r"
    using gt assms by simp
  show ?thesis
  proof (cases "r = 255")
    case True
    then show ?thesis using assms gt by simp
  next
    case False
    then have a: "(r + 1) mod 256 = r + 1" using assms by simp
    have b: "(256 + w - (r + 1)) mod 256 = 256 + w - (r + 1)"
      using gt assms by simp
    show ?thesis unfolding a b c using gt assms by simp
  qed
qed

lemma pending_nil: "rp_n chip = hw_n chip \<Longrightarrow> rirb_pending chip = []"
  using hw_n_lt[of chip] by (simp add: rirb_pending_def npend_def)

lemma rirb_entry_buf: "rirb_buf (rirb_entry chip) = rirb_buf chip \<and> RIRBWP (rirb_entry chip) = RIRBWP chip"
  by (simp add: rirb_entry_def Let_def)

lemma rp_n_rirb_entry: "rp_n (rirb_entry chip) = (rp_n chip + 1) mod 256"
  by (simp add: rp_n_def rirb_rp_rirb_entry)

lemma map_upt_shift: "map f [Suc 0..<Suc n] = map (\<lambda>k. f (Suc k)) [0..<n]"
  by (simp add: map_Suc_upt[symmetric] del: upt_Suc)

lemma pending_entry:
  assumes "rp_n chip < 256" and "rp_n chip \<noteq> hw_n chip"
  shows "rirb_pending chip = rirb_slot chip ((rp_n chip + 1) mod 256) # rirb_pending (rirb_entry chip)"
proof -
  let ?r = "rp_n chip" and ?h = "hw_n chip"
  have n: "Suc (npend (rirb_entry chip)) = npend chip"
    using npend_step[OF hw_n_lt assms(1) assms(2)]
    by (simp add: npend_def rp_n_rirb_entry hw_n_def rirb_entry_buf)
  have sl: "rirb_slot (rirb_entry chip) i = rirb_slot chip i" for i
    by (simp add: rirb_slot_def rirb_entry_buf)
  have sh: "(Suc ?r mod 256 + k) mod 256 = Suc (?r + k) mod 256" for k
    by (simp add: mod_add_left_eq)
  have "rirb_pending chip = map (\<lambda>k. rirb_slot chip ((?r + k) mod 256)) [1..<Suc (Suc (npend (rirb_entry chip)))]"
    by (simp add: rirb_pending_def n del: upt_Suc)
  also have "\<dots> = rirb_slot chip ((?r + 1) mod 256) #
      map (\<lambda>k. rirb_slot chip ((?r + k) mod 256)) [Suc 1..<Suc (Suc (npend (rirb_entry chip)))]"
    by (simp add: upt_conv_Cons del: upt_Suc)
  also have "map (\<lambda>k. rirb_slot chip ((?r + k) mod 256)) [Suc 1..<Suc (Suc (npend (rirb_entry chip)))]
      = map (\<lambda>k. rirb_slot chip ((?r + Suc k) mod 256)) [1..<Suc (npend (rirb_entry chip))]"
    by (simp add: map_Suc_upt[symmetric] del: upt_Suc)
  also have "\<dots> = rirb_pending (rirb_entry chip)"
    by (simp add: rirb_pending_def rp_n_rirb_entry sl sh del: upt_Suc)
  finally show ?thesis .
qed

lemma unat_azx_readb_of_nat: "n < 256 \<Longrightarrow> unat (azx_readb (of_nat n :: u16)) = n"
  by (simp add: unat_azx_readb unat_of_nat)

lemma npend_of:
  fixes r m :: nat
  assumes "r < 256" "m < 256"
  shows "(256 + (r + m) mod 256 - r) mod 256 = m"
proof (cases "r + m < 256")
  case True
  then show ?thesis using assms by simp
next
  case False
  then have "(r + m) mod 256 = r + m - 256"
    using assms by (simp add: mod_if)
  then show ?thesis using False assms by simp
qed

lemma slot_of_npend:
  fixes r h :: nat
  assumes "r < 256" "h < 256"
  shows "(r + (256 + h - r) mod 256) mod 256 = h"
proof (cases "r \<le> h")
  case True
  then have "(256 + h - r) mod 256 = h - r" using assms by (simp add: mod_if)
  then show ?thesis using True assms by simp
next
  case False
  then have "(256 + h - r) mod 256 = 256 + h - r" using assms by simp
  then show ?thesis using False assms by simp
qed

lemma rirb_deliver_fields:
  "rirb_rp (rirb_deliver chip r e) = rirb_rp chip \<and> rirb_wp (rirb_deliver chip r e) = rirb_wp chip \<and>
   rirb_cmds (rirb_deliver chip r e) = rirb_cmds chip \<and> rirb_res (rirb_deliver chip r e) = rirb_res chip"
  by (simp add: rirb_deliver_def Let_def)

lemma hw_n_deliver: "hw_n (rirb_deliver chip r e) = (hw_n chip + 1) mod 256"
  by (simp add: rirb_deliver_def Let_def hw_n_def unat_azx_readb_of_nat)

lemma rirb_slot_deliver:
  "rirb_slot (rirb_deliver chip r e) i =
     (if i = (hw_n chip + 1) mod 256 then (r, e) else rirb_slot chip i)"
proof -
  have a: "2 * i \<noteq> Suc (2 * j)" "Suc (2 * i) \<noteq> 2 * j" for j :: nat
    by presburger+
  show ?thesis
    by (auto simp: rirb_slot_def rirb_deliver_def Let_def hw_n_def a)
qed

lemma pending_deliver:
  assumes "rp_n chip < 256" and "npend chip < 255"
  shows "rirb_pending (rirb_deliver chip r e) = rirb_pending chip @ [(r, e)]"
proof -
  let ?r = "rp_n chip" and ?h = "hw_n chip" and ?n = "npend chip"
  let ?c = "rirb_deliver chip r e"
  have rp: "rp_n ?c = ?r" by (simp add: rp_n_def rirb_deliver_fields)
  have h: "(?r + ?n) mod 256 = ?h"
    unfolding npend_def by (rule slot_of_npend[OF assms(1) hw_n_lt])
  then have h1: "(?h + 1) mod 256 = (?r + Suc ?n) mod 256"
    by (metis Suc_eq_plus1 add_Suc_right mod_Suc_eq)
  have n1: "npend ?c = Suc ?n"
    unfolding npend_def[of ?c] rp hw_n_deliver h1
    using npend_of[OF assms(1), of "Suc ?n"] assms(2) by simp
  have ne: "(?r + k) mod 256 \<noteq> (?h + 1) mod 256" if "k \<le> ?n" for k
  proof
    assume "(?r + k) mod 256 = (?h + 1) mod 256"
    from this h1 have e: "(?r + k) mod 256 = (?r + Suc ?n) mod 256" by (rule trans)
    from that assms(2) have k: "k < 256" by simp
    from assms(2) have n: "Suc ?n < 256" by simp
    from npend_of[OF assms(1) k] npend_of[OF assms(1) n] e have "k = Suc ?n" by simp
    with that show False by simp
  qed
  have "rirb_pending ?c = map (\<lambda>k. rirb_slot ?c ((?r + k) mod 256)) [1..<Suc ?n]
          @ [rirb_slot ?c ((?r + Suc ?n) mod 256)]"
    by (simp add: rirb_pending_def rp n1)
  also have "map (\<lambda>k. rirb_slot ?c ((?r + k) mod 256)) [1..<Suc ?n] = rirb_pending chip"
    unfolding rirb_pending_def
  proof (rule map_cong[OF refl])
    fix k assume "k \<in> set [1..<Suc ?n]"
    then have "k \<le> ?n" by auto
    from ne[OF this] show "rirb_slot ?c ((?r + k) mod 256) = rirb_slot chip ((?r + k) mod 256)"
      by (subst rirb_slot_deliver) (rule if_not_P)
  qed
  also have "rirb_slot ?c ((?r + Suc ?n) mod 256) = (r, e)"
    unfolding h1[symmetric] by (subst rirb_slot_deliver) (rule if_P[OF refl])
  finally show ?thesis .
qed

subsection \<open>Codec address tags and the invariant\<close>

lemma lt8_cases:
  "a < (8::nat) \<Longrightarrow> a = 0 \<or> a = 1 \<or> a = 2 \<or> a = 3 \<or> a = 4 \<or> a = 5 \<or> a = 6 \<or> a = 7"
  by arith

lemma codec_tag_no_unsol: "a < 8 \<Longrightarrow> (of_nat a :: u32) AND ICH6_RIRB_EX_UNSOL_EV = 0"
  by (drule lt8_cases) (auto simp: ICH6_RIRB_EX_UNSOL_EV_def)

lemma response_addr_codec_tag: "a < 8 \<Longrightarrow> azx_response_addr (of_nat a) = a"
  by (drule lt8_cases) (auto simp: azx_response_addr_def AZX_MAX_CODECS_def)

lemma codec_tag_inj: "a < 8 \<Longrightarrow> b < 8 \<Longrightarrow> (of_nat a :: u32) = of_nat b \<Longrightarrow> a = b"
  by (drule lt8_cases, drule lt8_cases) auto

lemma ring_inv0_head:
  assumes "ring_inv0 ((r, e) # ps) cmds res link"
  shows "\<exists>a<8. e = of_nat a \<and> cmds a = 1 \<and> ring_inv0 ps (cmds(a := 0)) (res(a := r)) link"
proof -
  from assms have fl: "resp_in_flight cmds link (r, e)"
    by (simp add: ring_inv0_def)
  then obtain a where a: "a < 8" "e = of_nat a" "cmds a = 1" "owed link a = 0"
    "produced link a = Some r"
    by (auto simp: resp_in_flight_def)
  from assms have d: "e \<notin> snd ` set ps" "distinct (map snd ps)"
    by (simp_all add: ring_inv0_def)
  have 1: "resp_in_flight (cmds(a := 0)) link p" if "p \<in> set ps" for p
  proof -
    from assms that have "resp_in_flight cmds link p" by (simp add: ring_inv0_def)
    then obtain b where b: "b < 8" "snd p = of_nat b" "cmds b = 1" "owed link b = 0"
      "produced link b = Some (fst p)"
      by (auto simp: resp_in_flight_def)
    from that d(1) have "snd p \<noteq> e" by force
    with a(2) b(2) have "b \<noteq> a" by auto
    with b show ?thesis by (auto simp: resp_in_flight_def)
  qed
  have 2: "cmd_answered (cmds(a := 0)) (res(a := r)) link b \<or> cmd_awaited (cmds(a := 0)) link b"
    if "b < 8" "of_nat b \<notin> snd ` set ps" for b
  proof (cases "b = a")
    case True
    with a show ?thesis by (simp add: cmd_answered_def)
  next
    case False
    with that a(1,2) have "of_nat b \<noteq> e"
      using codec_tag_inj[of b a] by auto
    with that have "of_nat b \<notin> snd ` set ((r, e) # ps)" by auto
    with assms that(1) have "cmd_answered cmds res link b \<or> cmd_awaited cmds link b"
      by (simp add: ring_inv0_def)
    with False show ?thesis by (simp add: cmd_answered_def cmd_awaited_def)
  qed
  from assms have 3: "\<forall>a. 8 \<le> a \<longrightarrow> owed link a = 0" by (simp add: ring_inv0_def)
  from 1 2 3 d(2) have "ring_inv0 ps (cmds(a := 0)) (res(a := r)) link"
    by (simp add: ring_inv0_def)
  with a show ?thesis by blast
qed

lemma rirb_entry_matched:
  assumes "rirb_slot chip ((rp_n chip + 1) mod 256) = (r, of_nat a)" and "a < 8"
    and "rirb_cmds chip a = 1"
  shows "rirb_cmds (rirb_entry chip) = (rirb_cmds chip)(a := 0) \<and>
         rirb_res (rirb_entry chip) = (rirb_res chip)(a := r) \<and>
         rirb_wp (rirb_entry chip) = rirb_wp chip"
proof -
  let ?i = "(rp_n chip + 1) mod 256"
  have i: "unat ((rirb_rp chip + 1) mod ICH6_MAX_RIRB_ENTRIES) = ?i"
    by (simp add: unat_rirb_rp_next rp_n_def)
  from assms(1) have b: "rirb_buf chip (2 * ?i) = r" "rirb_buf chip (2 * ?i + 1) = of_nat a"
    by (simp_all add: rirb_slot_def)
  show ?thesis
    unfolding rirb_entry_def Let_def
    using b assms(3) codec_tag_no_unsol[OF assms(2)] response_addr_codec_tag[OF assms(2)]
    by (simp add: i)
qed

lemma rirb_drain_inv:
  "unat wp = hw_n chip \<Longrightarrow> rp_n chip < 256 \<Longrightarrow>
   ring_inv0 (rirb_pending chip) (rirb_cmds chip) (rirb_res chip) link \<Longrightarrow>
   rp_n (rirb_drain wp chip) = hw_n chip \<and> RIRBWP (rirb_drain wp chip) = RIRBWP chip \<and>
   rirb_buf (rirb_drain wp chip) = rirb_buf chip \<and> rirb_wp (rirb_drain wp chip) = rirb_wp chip \<and>
   ring_inv0 [] (rirb_cmds (rirb_drain wp chip)) (rirb_res (rirb_drain wp chip)) link"
proof (induction wp chip rule: rirb_drain.induct)
  case (1 wp chip)
  show ?case
  proof (cases "unat (rirb_rp chip) \<noteq> unat wp")
    case False
    then have e: "rp_n chip = hw_n chip" using "1.prems"(1) by (simp add: rp_n_def)
    from pending_nil[OF e] "1.prems"(3) e False show ?thesis
      by (subst (1 2 3 4 5 6) rirb_drain.simps) simp
  next
    case True
    then have ne: "rp_n chip \<noteq> hw_n chip" using "1.prems"(1) by (simp add: rp_n_def)
    let ?c = "rirb_entry chip"
    obtain r e where sl: "rirb_slot chip ((rp_n chip + 1) mod 256) = (r, e)"
      by (cases "rirb_slot chip ((rp_n chip + 1) mod 256)")
    from pending_entry[OF "1.prems"(2) ne] sl
    have p: "rirb_pending chip = (r, e) # rirb_pending ?c" by simp
    from "1.prems"(3) have "ring_inv0 ((r, e) # rirb_pending ?c) (rirb_cmds chip) (rirb_res chip) link"
      unfolding p .
    from ring_inv0_head[OF this]
    obtain a where a: "a < 8" "e = of_nat a" "rirb_cmds chip a = 1"
      "ring_inv0 (rirb_pending ?c) ((rirb_cmds chip)(a := 0)) ((rirb_res chip)(a := r)) link"
      by blast
    from rirb_entry_matched[OF sl[unfolded a(2)] a(1) a(3)]
    have m: "rirb_cmds ?c = (rirb_cmds chip)(a := 0)" "rirb_res ?c = (rirb_res chip)(a := r)"
      "rirb_wp ?c = rirb_wp chip"
      by simp_all
    have h: "unat wp = hw_n ?c" using "1.prems"(1) by (simp add: hw_n_def rirb_entry_buf)
    have l: "rp_n ?c < 256" by (simp add: rp_n_rirb_entry)
    from a(4) m have i: "ring_inv0 (rirb_pending ?c) (rirb_cmds ?c) (rirb_res ?c) link" by simp
    from "1.IH"[OF True h l i] m(3)
    have "rp_n (rirb_drain wp ?c) = hw_n chip \<and> RIRBWP (rirb_drain wp ?c) = RIRBWP chip \<and>
          rirb_buf (rirb_drain wp ?c) = rirb_buf chip \<and> rirb_wp (rirb_drain wp ?c) = rirb_wp chip \<and>
          ring_inv0 [] (rirb_cmds (rirb_drain wp ?c)) (rirb_res (rirb_drain wp ?c)) link"
      by (simp add: hw_n_def rirb_entry_buf)
    moreover have "rirb_drain wp chip = rirb_drain wp ?c"
      using True by (subst rirb_drain.simps) simp
    ultimately show ?thesis by simp
  qed
qed

lemma pending_cong:
  "rirb_rp c1 = rirb_rp c \<Longrightarrow> RIRBWP c1 = RIRBWP c \<Longrightarrow> rirb_buf c1 = rirb_buf c \<Longrightarrow>
   rirb_pending c1 = rirb_pending c"
  by (simp add: rirb_pending_def npend_def rp_n_def hw_n_def rirb_slot_def)

lemma update_rirb_inv:
  assumes "ring_inv (c, l)"
  shows "ring_inv (azx_update_rirb c, l) \<and> rirb_pending (azx_update_rirb c) = []"
proof (cases "unat (azx_readb (RIRBWP c)) = unat (rirb_wp c)")
  case True
  with assms have "rp_n c = hw_n c" by (simp add: ring_inv_def hw_n_def)
  from pending_nil[OF this] True assms show ?thesis
    by (simp add: azx_update_rirb_def Let_def)
next
  case False
  let ?wp = "azx_readb (RIRBWP c)"
  let ?c = "c\<lparr>rirb_wp := ucast ?wp\<rparr>"
  let ?d = "rirb_drain ?wp ?c"
  have u: "azx_update_rirb c = ?d" using False by (simp add: azx_update_rirb_def Let_def)
  have pc: "rirb_pending ?c = rirb_pending c" by (rule pending_cong) simp_all
  have 1: "unat ?wp = hw_n ?c" by (simp add: hw_n_def)
  have 2: "rp_n ?c < 256" using assms by (simp add: ring_inv_def rp_n_def)
  have 3: "ring_inv0 (rirb_pending ?c) (rirb_cmds ?c) (rirb_res ?c) l"
    using assms unfolding pc by (simp add: ring_inv_def)
  from rirb_drain_inv[OF 1 2 3]
  have d: "rp_n ?d = hw_n c" "RIRBWP ?d = RIRBWP c" "rirb_wp ?d = ucast ?wp"
    "ring_inv0 [] (rirb_cmds ?d) (rirb_res ?d) l"
    by (simp_all add: hw_n_def)
  have e: "rp_n ?d = hw_n ?d" using d(1,2) by (simp add: hw_n_def)
  have w: "unat (rirb_wp ?d) = rp_n ?d"
    unfolding d(3) d(1) by (simp add: hw_n_def unsigned_ucast_eq unat_azx_readb take_bit_eq_mod)
  have lt: "rp_n ?d < 256" unfolding d(1) by (rule hw_n_lt)
  from pending_nil[OF e] d(4) w lt show ?thesis
    unfolding u by (simp add: ring_inv_def)
qed

lemma in_flight_tag:
  assumes "ring_inv0 ps cmds res link" and "a < 8" and "of_nat a \<in> snd ` set ps"
  shows "cmds a = 1 \<and> owed link a = 0"
proof -
  from assms(3) obtain p where p: "p \<in> set ps" "snd p = of_nat a" by auto
  with assms(1) have "resp_in_flight cmds link p" by (simp add: ring_inv0_def)
  then obtain b where b: "b < 8" "snd p = of_nat b" "cmds b = 1" "owed link b = 0"
    by (auto simp: resp_in_flight_def)
  from codec_tag_inj[OF assms(2) b(1)] p(2) b(2) have "a = b" by simp
  with b show ?thesis by simp
qed

lemma ring_inv0_length:
  assumes "ring_inv0 ps cmds res link"
  shows "length ps \<le> 8"
proof -
  from assms have d: "distinct (map snd ps)" by (simp add: ring_inv0_def)
  have "set (map snd ps) \<subseteq> (of_nat :: nat \<Rightarrow> u32) ` {..<8}"
  proof
    fix e assume "e \<in> set (map snd ps)"
    then obtain p where p: "p \<in> set ps" "e = snd p" by auto
    with assms have "resp_in_flight cmds link p" by (simp add: ring_inv0_def)
    with p(2) show "e \<in> (of_nat :: nat \<Rightarrow> u32) ` {..<8}" by (auto simp: resp_in_flight_def)
  qed
  then have "card (set (map snd ps)) \<le> card ((of_nat :: nat \<Rightarrow> u32) ` {..<8})"
    by (intro card_mono) simp_all
  also have "\<dots> \<le> card {..<(8::nat)}" by (rule card_image_le) simp
  finally have "card (set (map snd ps)) \<le> 8" by simp
  with distinct_card[OF d] show ?thesis by simp
qed

lemma codec_response_inv:
  assumes "ring_inv (chip, link)" and "a < 16" and "owed link a > 0"
  shows "ring_inv (rirb_deliver chip r (of_nat a),
                   link\<lparr>owed := (owed link)(a := owed link a - 1),
                        produced := (produced link)(a := Some r)\<rparr>)"
proof -
  let ?ps = "rirb_pending chip" and ?cmds = "rirb_cmds chip" and ?res = "rirb_res chip"
  let ?l = "link\<lparr>owed := (owed link)(a := owed link a - 1), produced := (produced link)(a := Some r)\<rparr>"
  let ?c = "rirb_deliver chip r (of_nat a)"
  from assms(1) have i0: "ring_inv0 ?ps ?cmds ?res link" and rp: "rp_n chip < 256"
    and wp: "unat (rirb_wp chip) = rp_n chip"
    by (simp_all add: ring_inv_def)
  from i0 have hi: "\<forall>a. 8 \<le> a \<longrightarrow> owed link a = 0" by (simp add: ring_inv0_def)
  with assms(3) have a8: "a < 8" by (metis not_le_imp_less less_numeral_extra(3))
  have nin: "of_nat a \<notin> snd ` set ?ps"
    using in_flight_tag[OF i0 a8] assms(3) by auto
  with i0 a8 have "cmd_answered ?cmds ?res link a \<or> cmd_awaited ?cmds link a"
    by (simp add: ring_inv0_def)
  with assms(3) have aw: "?cmds a = 1" "owed link a = 1"
    by (auto simp: cmd_answered_def cmd_awaited_def)
  from ring_inv0_length[OF i0] have "npend chip < 255" by (simp add: length_pending)
  from pending_deliver[OF rp this]
  have p: "rirb_pending ?c = ?ps @ [(r, of_nat a)]" .
  have f: "rirb_cmds ?c = ?cmds" "rirb_res ?c = ?res" "rirb_wp ?c = rirb_wp chip"
    "rp_n ?c = rp_n chip"
    by (simp_all add: rirb_deliver_fields rp_n_def)
  have 1: "resp_in_flight ?cmds ?l p" if "p \<in> set ?ps" for p
  proof -
    from i0 that have "resp_in_flight ?cmds link p" by (simp add: ring_inv0_def)
    then obtain b where b: "b < 8" "snd p = of_nat b" "?cmds b = 1" "owed link b = 0"
      "produced link b = Some (fst p)"
      by (auto simp: resp_in_flight_def)
    from that nin have "snd p \<noteq> of_nat a" by force
    with b(2) have "b \<noteq> a" by auto
    with b show ?thesis by (auto simp: resp_in_flight_def)
  qed
  have 2: "resp_in_flight ?cmds ?l (r, of_nat a)"
    using a8 aw by (auto simp: resp_in_flight_def)
  have 3: "cmd_answered ?cmds ?res ?l b \<or> cmd_awaited ?cmds ?l b"
    if "b < 8" "of_nat b \<notin> snd ` set (?ps @ [(r, of_nat a)])" for b
  proof -
    from that(2) have ne: "b \<noteq> a" and "of_nat b \<notin> snd ` set ?ps" by auto
    with i0 that(1) have "cmd_answered ?cmds ?res link b \<or> cmd_awaited ?cmds link b"
      by (simp add: ring_inv0_def)
    with ne show ?thesis by (simp add: cmd_answered_def cmd_awaited_def)
  qed
  from i0 have d: "distinct (map snd ?ps)" by (simp add: ring_inv0_def)
  have "ring_inv0 (?ps @ [(r, of_nat a)]) ?cmds ?res ?l"
    unfolding ring_inv0_def
  proof (intro conjI)
    show "distinct (map snd (?ps @ [(r, of_nat a)]))" using d nin by simp
    show "\<forall>p\<in>set (?ps @ [(r, of_nat a)]). resp_in_flight ?cmds ?l p" using 1 2 by auto
    show "\<forall>a. 8 \<le> a \<longrightarrow> owed ?l a = 0" using hi by simp
    show "\<forall>b<8. of_nat b \<notin> snd ` set (?ps @ [(r, of_nat a)]) \<longrightarrow>
            cmd_answered ?cmds ?res ?l b \<or> cmd_awaited ?cmds ?l b"
      using 3 by blast
  qed
  then show ?thesis
    unfolding ring_inv_def by (simp add: p f rp wp)
qed

lemma ring_inv_ring_same:
  assumes "ring_inv (c, l)" and "ring_same c c1"
  shows "ring_inv (c1, l)"
proof -
  from assms(2) have "rirb_pending c1 = rirb_pending c"
    by (intro pending_cong) (simp_all add: ring_same_def)
  with assms show ?thesis
    by (simp add: ring_inv_def ring_same_def rp_n_def)
qed

lemma hw_step_inv:
  assumes "no_inject ev" and "ring_inv s"
  shows "ring_inv (hw_step ev s)"
proof (cases s)
  case (Pair chip link)
  show ?thesis
  proof (cases ev)
    case (Codec_Response a r)
    with Pair assms(2) codec_response_inv[of chip link a r] show ?thesis by simp
  next
    case Rirb_Interrupt
    with Pair assms(2) update_rirb_inv[of chip link] show ?thesis by simp
  next
    case (Inject r e)
    with assms(1) show ?thesis by simp
  qed
qed

subsection \<open>Preservation by sends, receives and hardware events\<close>

lemma corb_fetch_sent:
  "corb_fetch (azx_corb_send_cmd chip val) link =
     link\<lparr>owed := (owed link)(unat (drop_bit 28 val) := owed link (unat (drop_bit 28 val)) + 1),
          produced := (produced link)(unat (drop_bit 28 val) := None)\<rparr>"
proof -
  let ?wp = "(unat (azx_readb (CORBWP chip)) + 1) mod 256"
  have "?wp < 256" by simp
  from unat_azx_readb_of_nat[OF this]
  have "corb_buf (azx_corb_send_cmd chip val) (unat (azx_readb (CORBWP (azx_corb_send_cmd chip val)))) = val"
    by (simp add: azx_corb_send_cmd_def Let_def ICH6_MAX_CORB_ENTRIES_def)
  then show ?thesis by (simp add: corb_fetch_def Let_def)
qed

lemma send_inv:
  assumes "ring_inv (chip, link)" and "admissible (Ring_Send val) (chip, link)"
  shows "ring_inv (ring_step (Ring_Send val) (chip, link))"
proof -
  let ?a = "unat (drop_bit 28 val)"
  let ?ps = "rirb_pending chip" and ?cmds = "rirb_cmds chip" and ?res = "rirb_res chip"
  let ?c = "azx_corb_send_cmd chip val"
  let ?l = "link\<lparr>owed := (owed link)(?a := owed link ?a + 1), produced := (produced link)(?a := None)\<rparr>"
  from assms(2) have a8: "?a < 8"
    by (simp add: AZX_MAX_CODECS_def)
  then have ca: "azx_command_addr val = ?a"
    by (simp add: AZX_MAX_CODECS_def azx_command_addr_def Let_def)
  from assms(2) ca have z: "?cmds ?a = 0"
    by simp
  from assms(1) have i0: "ring_inv0 ?ps ?cmds ?res link" and rp: "rp_n chip < 256"
    and wp: "unat (rirb_wp chip) = rp_n chip"
    by (simp_all add: ring_inv_def)
  have nin: "of_nat ?a \<notin> snd ` set ?ps"
    using in_flight_tag[OF i0 a8] z by auto
  with i0 a8 have "cmd_answered ?cmds ?res link ?a \<or> cmd_awaited ?cmds link ?a"
    by (simp add: ring_inv0_def)
  with z have an: "owed link ?a = 0" by (auto simp: cmd_answered_def cmd_awaited_def)
  have f: "rirb_cmds ?c = ?cmds(?a := 1)" "rirb_res ?c = ?res" "rirb_wp ?c = rirb_wp chip"
    "rp_n ?c = rp_n chip"
    using z by (simp_all add: azx_corb_send_cmd_def Let_def ca rp_n_def)
  have p: "rirb_pending ?c = ?ps"
    by (rule pending_cong) (simp_all add: azx_corb_send_cmd_def Let_def)
  have 1: "resp_in_flight (?cmds(?a := 1)) ?l q" if "q \<in> set ?ps" for q
  proof -
    from i0 that have "resp_in_flight ?cmds link q" by (simp add: ring_inv0_def)
    then obtain b where b: "b < 8" "snd q = of_nat b" "?cmds b = 1" "owed link b = 0"
      "produced link b = Some (fst q)"
      by (auto simp: resp_in_flight_def)
    from that nin have "snd q \<noteq> of_nat ?a" by force
    with b(2) have "b \<noteq> ?a" by auto
    with b show ?thesis by (auto simp: resp_in_flight_def)
  qed
  have 3: "cmd_answered (?cmds(?a := 1)) ?res ?l b \<or> cmd_awaited (?cmds(?a := 1)) ?l b"
    if "b < 8" "of_nat b \<notin> snd ` set ?ps" for b
  proof (cases "b = ?a")
    case True
    with an show ?thesis by (simp add: cmd_awaited_def)
  next
    case False
    from i0 that have "cmd_answered ?cmds ?res link b \<or> cmd_awaited ?cmds link b"
      by (simp add: ring_inv0_def)
    with False show ?thesis by (simp add: cmd_answered_def cmd_awaited_def)
  qed
  from i0 have d: "distinct (map snd ?ps)" and hi: "\<forall>a. 8 \<le> a \<longrightarrow> owed link a = 0"
    by (simp_all add: ring_inv0_def)
  have "ring_inv0 ?ps (?cmds(?a := 1)) ?res ?l"
    unfolding ring_inv0_def
  proof (intro conjI)
    show "distinct (map snd ?ps)" by (rule d)
    show "\<forall>p\<in>set ?ps. resp_in_flight (?cmds(?a := 1)) ?l p" using 1 by blast
    show "\<forall>a. 8 \<le> a \<longrightarrow> owed ?l a = 0" using hi a8 by simp
    show "\<forall>b<8. of_nat b \<notin> snd ` set ?ps \<longrightarrow>
            cmd_answered (?cmds(?a := 1)) ?res ?l b \<or> cmd_awaited (?cmds(?a := 1)) ?l b"
      using 3 by blast
  qed
  then have "ring_inv (?c, ?l)"
    unfolding ring_inv_def by (simp add: p f rp wp)
  then show ?thesis by (simp add: corb_fetch_sent Let_def)
qed

lemma send_taken:
  assumes "admissible (Ring_Send val) s"
  shows "cmd_taken (snd (ring_step (Ring_Send val) s)) (azx_command_addr val)"
proof -
  from assms have "azx_command_addr val = unat (drop_bit 28 val)"
    by (simp add: AZX_MAX_CODECS_def azx_command_addr_def Let_def)
  then show ?thesis
    by (cases s) (simp add: corb_fetch_sent Let_def cmd_taken_def)
qed

lemma hw_step_taken:
  assumes "cmd_taken (snd s) a"
  shows "cmd_taken (snd (hw_step ev s)) a"
  using assms by (cases ev; cases s) (auto simp: cmd_taken_def)

lemma receive_inv:
  assumes "list_all (list_all (list_all no_inject)) rounds" and "ring_inv s"
  shows "ring_inv (fst (rirb_get_response_again dp addr rounds irq_ok s))"
proof (rule rirb_get_response_again_preserves[where Q = no_inject and P = ring_inv, OF _ _ _ assms])
  show "\<And>ev s. no_inject ev \<Longrightarrow> ring_inv s \<Longrightarrow> ring_inv (hw_step ev s)"
    by (rule hw_step_inv)
  show "\<And>c l. ring_inv (c, l) \<Longrightarrow> ring_inv (azx_update_rirb c, l)"
    using update_rirb_inv by blast
  show "\<And>c c1 l. ring_inv (c, l) \<Longrightarrow> ring_same c c1 \<Longrightarrow> ring_inv (c1, l)"
    by (rule ring_inv_ring_same)
qed

lemma receive_taken:
  assumes "list_all (list_all (list_all no_inject)) rounds" and "cmd_taken (snd s) a"
  shows "cmd_taken (snd (fst (rirb_get_response_again dp addr rounds irq_ok s))) a"
proof (rule rirb_get_response_again_preserves[where Q = no_inject and P = "\<lambda>s. cmd_taken (snd s) a",
        OF _ _ _ assms])
  show "\<And>ev s. no_inject ev \<Longrightarrow> cmd_taken (snd s) a \<Longrightarrow> cmd_taken (snd (hw_step ev s)) a"
    by (rule hw_step_taken)
  show "\<And>c l. cmd_taken (snd (c, l)) a \<Longrightarrow> cmd_taken (snd (azx_update_rirb c, l)) a"
    by simp
  show "\<And>c c1 l. cmd_taken (snd (c, l)) a \<Longrightarrow> ring_same c c1 \<Longrightarrow> cmd_taken (snd (c1, l)) a"
    by simp
qed

lemma ring_step_inv:
  assumes "admissible x s" and "ring_inv s"
  shows "ring_inv (ring_step x s)"
proof (cases x)
  case (Ring_Send val)
  with assms send_inv[of "fst s" "snd s" val] show ?thesis by simp
next
  case (Ring_Receive addr rounds irq_ok)
  with assms receive_inv[of rounds s False addr irq_ok] show ?thesis
    by (simp add: azx_rirb_get_response_def)
next
  case (Ring_Hw ev)
  with assms hw_step_inv[of ev s] show ?thesis by simp
qed

lemma ring_step_taken:
  assumes "admissible x s" and "cmd_taken (snd s) a"
  shows "cmd_taken (snd (ring_step x s)) a"
proof (cases x)
  case (Ring_Send val)
  with assms(2) show ?thesis
    by (cases s) (simp add: corb_fetch_sent Let_def cmd_taken_def)
next
  case (Ring_Receive addr rounds irq_ok)
  with assms receive_taken[of rounds s a False addr irq_ok] show ?thesis
    by (simp add: azx_rirb_get_response_def)
next
  case (Ring_Hw ev)
  with assms hw_step_taken[of s a ev] show ?thesis by simp
qed

lemma ring_run_inv:
  "disciplined ops s \<Longrightarrow> ring_inv s \<Longrightarrow>
   ring_inv (ring_run ops s) \<and>
   (cmd_taken (snd s) a \<or> (\<exists>val. Ring_Send val \<in> set ops \<and> azx_command_addr val = a)
      \<longrightarrow> cmd_taken (snd (ring_run ops s)) a)"
proof (induction ops arbitrary: s)
  case Nil
  then show ?case by (simp add: ring_run_def)
next
  case (Cons x xs)
  from Cons.prems have ad: "admissible x s" and di: "disciplined xs (ring_step x s)" by simp_all
  from ring_step_inv[OF ad Cons.prems(2)] have i: "ring_inv (ring_step x s)" .
  note IH = Cons.IH[OF di i]
  have r: "ring_run (x # xs) s = ring_run xs (ring_step x s)" by (simp add: ring_run_def)
  have "cmd_taken (snd (ring_step x s)) a \<or> (\<exists>val. Ring_Send val \<in> set xs \<and> azx_command_addr val = a)"
    if "cmd_taken (snd s) a \<or> (\<exists>val. Ring_Send val \<in> set (x # xs) \<and> azx_command_addr val = a)"
  proof -
    from that consider "cmd_taken (snd s) a" | val where "x = Ring_Send val" "azx_command_addr val = a"
      | "\<exists>val. Ring_Send val \<in> set xs \<and> azx_command_addr val = a"
      by auto
    then show ?thesis
    proof cases
      case 1
      from ring_step_taken[OF ad this] show ?thesis by simp
    next
      case 2
      with send_taken[of val s] ad show ?thesis by auto
    next
      case 3
      then show ?thesis by simp
    qed
  qed
  with IH show ?case unfolding r by blast
qed

lemma ring_init_inv: "ring_inv (ring_init chip0)"
proof -
  have "rp_n (azx_init_cmd_io chip0) = hw_n (azx_init_cmd_io chip0)"
    by (simp add: rp_n_def hw_n_def azx_init_cmd_io_def azx_readb_def)
  from pending_nil[OF this] show ?thesis
    by (simp add: ring_inv_def ring_init_def ring_inv0_def cmd_answered_def rp_n_def azx_init_cmd_io_def)
qed

lemma disciplined_append:
  "disciplined (xs @ ys) s = (disciplined xs s \<and> disciplined ys (ring_run xs s))"
  by (induction xs arbitrary: s) (simp_all add: ring_run_def)

subsection \<open>What a receive returns\<close>

lemma rirb_pass_polled:
  assumes "polling_mode (fst s) \<or> dp" and "ring_inv s" and "list_all no_inject evs"
  shows "rirb_pending (fst (rirb_pass dp evs s)) = []"
proof -
  obtain c l where h: "hw_steps evs s = (c, l)" by (cases "hw_steps evs s")
  from same_flags_hw_steps[of s evs] h have "polling_mode c = polling_mode (fst s)"
    by (simp add: same_flags_def)
  with assms(1) have p: "polling_mode c \<or> dp" by simp
  from hw_steps_preserves[of no_inject ring_inv evs s, OF hw_step_inv assms(3,2)] h
  have "ring_inv (c, l)" by simp
  from update_rirb_inv[OF this] h p show ?thesis
    by (auto simp: rirb_pass_def)
qed

lemma rirb_pass_inv:
  assumes "ring_inv s" and "list_all no_inject evs"
  shows "ring_inv (rirb_pass dp evs s)"
proof (rule rirb_pass_preserves[where Q = no_inject and P = ring_inv, OF _ _ assms(2,1)])
  show "\<And>ev s. no_inject ev \<Longrightarrow> ring_inv s \<Longrightarrow> ring_inv (hw_step ev s)"
    by (rule hw_step_inv)
  show "\<And>c l. ring_inv (c, l) \<Longrightarrow> ring_inv (azx_update_rirb c, l)"
    using update_rirb_inv by blast
qed

lemma rirb_wait_polled:
  "polling_mode (fst s) \<or> dp \<Longrightarrow> ring_inv s \<Longrightarrow> list_all (list_all no_inject) sched \<Longrightarrow>
   rirb_pending (fst (fst (rirb_wait dp addr sched s))) = [] \<and> ring_inv (fst (rirb_wait dp addr sched s))"
proof (induction sched arbitrary: s)
  case Nil
  have e: "list_all no_inject []" by simp
  from rirb_pass_polled[OF Nil(1,2) e] rirb_pass_inv[OF Nil(2) e, of dp] show ?case
    by (simp add: Let_def)
next
  case (Cons evs rest)
  from Cons.prems(3) have e: "list_all no_inject evs" and r: "list_all (list_all no_inject) rest"
    by simp_all
  let ?s1 = "rirb_pass dp evs s"
  note p = rirb_pass_polled[OF Cons.prems(1,2) e]
  note i = rirb_pass_inv[OF Cons.prems(2) e, of dp]
  from same_flags_rirb_pass[of s dp evs] Cons.prems(1) have f: "polling_mode (fst ?s1) \<or> dp"
    by (simp add: same_flags_def)
  from Cons.IH[OF f i r] p i show ?case
    by (simp add: Let_def)
qed

lemma receive_result:
  "rirb_get_response_again dp addr rounds irq_ok s = (s1, r) \<Longrightarrow> ring_inv s \<Longrightarrow>
   list_all (list_all (list_all no_inject)) rounds \<Longrightarrow>
   (rirb_cmds (fst s1) addr = 0 \<longrightarrow> r = rirb_res (fst s1) addr) \<and>
   (rirb_cmds (fst s1) addr \<noteq> 0 \<longrightarrow> r = - 1 \<and> rirb_pending (fst s1) = [])"
proof (induction dp addr rounds irq_ok s rule: rirb_get_response_again.induct)
  case (1 do_poll addr rounds irq_ok s)
  let ?sched = "case rounds of [] \<Rightarrow> [] | r # _ \<Rightarrow> r"
  obtain chip link got where w: "rirb_wait do_poll addr ?sched s = ((chip, link), got)"
    by (metis prod.collapse)
  have qs: "list_all (list_all no_inject) ?sched" using "1.prems"(3) by (cases rounds) simp_all
  have qt: "list_all (list_all (list_all no_inject)) (tl rounds)"
    using "1.prems"(3) by (cases rounds) simp_all
  from same_flags_rirb_wait[of s do_poll addr ?sched] w
  have sf: "polling_mode (fst s) = polling_mode chip" by (simp add: same_flags_def)
  from rirb_wait_got[of do_poll addr ?sched s] w
  have got: "got = (rirb_cmds chip addr = 0)" by simp
  have inv: "ring_inv (chip, link)"
    using rirb_wait_preserves[of no_inject ring_inv ?sched s do_poll addr, OF hw_step_inv _ qs "1.prems"(2)]
      update_rirb_inv w by auto
  have f: "ring_inv (c1, link)" if "ring_same chip c1" for c1
    using ring_inv_ring_same[OF inv that] .
  have pol: "rirb_pending chip = []" if "polling_mode chip"
    using rirb_wait_polled[of s do_poll ?sched addr, OF _ "1.prems"(2) qs] that sf w by simp
  note IH = "1.IH"[OF w[symmetric] refl]
  note u = rirb_get_response_again_unfold[OF w, of irq_ok]
  note e = "1.prems"(1)[unfolded u]
  consider (g) got
    | (a) "\<not> got" "\<not> polling_mode chip \<and> poll_count chip < 2"
    | (b) "\<not> got" "\<not> (\<not> polling_mode chip \<and> poll_count chip < 2)" "\<not> polling_mode chip"
    | (c1) "\<not> got" "polling_mode chip" "msi chip" "\<not> irq_ok"
    | (c2) "\<not> got" "polling_mode chip" "msi chip" "irq_ok"
    | (d) "\<not> got" "polling_mode chip" "\<not> msi chip"
    by blast
  then show ?case
  proof cases
    case g
    with e got show ?thesis by auto
  next
    case a
    have i: "ring_inv (chip\<lparr>poll_count := poll_count chip + 1\<rparr>, link)"
      by (rule f) (simp add: ring_same_def)
    from e a have "rirb_get_response_again True addr (tl rounds) irq_ok
              (chip\<lparr>poll_count := poll_count chip + 1\<rparr>, link) = (s1, r)" by simp
    from IH(1)[OF a this i qt] show ?thesis .
  next
    case b
    have i: "ring_inv (chip\<lparr>polling_mode := True\<rparr>, link)"
      by (rule f) (simp add: ring_same_def)
    from e b have "rirb_get_response_again do_poll addr (tl rounds) irq_ok
              (chip\<lparr>polling_mode := True\<rparr>, link) = (s1, r)" by simp
    from IH(2)[OF b this i qt] show ?thesis .
  next
    case c1
    with e have s1: "s1 = (chip\<lparr>irq := - 1, msi := False,
                         bus := (bus chip)\<lparr>rirb_error := True\<rparr>\<rparr>, link)" "r = - 1"
      by simp_all
    have "rirb_pending (fst s1) = rirb_pending chip"
      unfolding s1 by (rule pending_cong) simp_all
    with pol[OF c1(2)] s1 c1(1) got show ?thesis by simp
  next
    case c2
    have i: "ring_inv (chip\<lparr>irq := irq_id chip, msi := False\<rparr>, link)"
      by (rule f) (simp add: ring_same_def)
    from e c2 have q: "rirb_get_response_again do_poll addr (tl rounds) irq_ok
                    (chip\<lparr>irq := irq_id chip, msi := False\<rparr>, link) = (s1, r)" by simp
    have n: "\<not> (\<not> polling_mode chip \<and> poll_count chip < 2)" "\<not> \<not> polling_mode chip" "\<not> \<not> irq_ok"
      using c2 by simp_all
    from IH(3)[OF c2(1) n(1,2) c2(3) n(3) q i qt] show ?thesis .
  next
    case d
    with e have s1: "ring_same chip (fst s1)" "r = - 1"
      by (auto simp: Let_def azx_free_cmd_io_def ring_same_def split: if_splits)
    have "rirb_pending (fst s1) = rirb_pending chip"
      using s1(1) by (intro pending_cong) (simp_all add: ring_same_def)
    with pol[OF d(2)] s1 d(1) got show ?thesis by (simp add: ring_same_def)
  qed
qed

text \<open>
  Claim C1.  Take any sequence of ring operations from \<open>azx_init_cmd_io\<close> in which a
  command is sent to a codec address only while no command to that address is pending and
  no response is injected, containing a send to \<open>addr\<close>, and follow it by a receive for
  \<open>addr\<close>.  If the codec has produced a response to the command it took last for
  \<open>addr\<close> (every send resets \<open>produced\<close> to \<open>None\<close>, so this is the most recent send),
  \<open>azx_rirb_get_response\<close> returns exactly that response and the pending counter is zero.
  If the codec has produced none by the end of the last fallback stage, the receive returns
  -1 and the command is still pending and owed.
\<close>

theorem ring_round_trip:
  assumes "disciplined (ops @ [Ring_Receive addr rounds irq_ok]) (ring_init chip0)"
    and "Ring_Send val \<in> set ops" and "azx_command_addr val = addr"
    and "azx_rirb_get_response addr rounds irq_ok (ring_run ops (ring_init chip0)) = (s1, r)"
  shows "case produced (snd s1) addr of
           Some x \<Rightarrow> r = x \<and> rirb_cmds (fst s1) addr = 0
         | None \<Rightarrow> r = - 1 \<and> rirb_cmds (fst s1) addr = 1 \<and> owed (snd s1) addr = 1"
proof -
  let ?s = "ring_run ops (ring_init chip0)"
  from assms(1) have d: "disciplined ops (ring_init chip0)"
    and ad: "addr < 8" "list_all (list_all (list_all no_inject)) rounds"
    by (simp_all add: disciplined_append AZX_MAX_CODECS_def)
  from ring_run_inv[OF d ring_init_inv, of addr] assms(2,3)
  have i: "ring_inv ?s" and t: "cmd_taken (snd ?s) addr" by auto
  from receive_inv[OF ad(2) i, of False addr irq_ok] assms(4)
  have i1: "ring_inv s1" by (simp add: azx_rirb_get_response_def)
  from receive_taken[OF ad(2) t, of False addr irq_ok] assms(4)
  have t1: "cmd_taken (snd s1) addr" by (simp add: azx_rirb_get_response_def)
  from receive_result[OF assms(4)[unfolded azx_rirb_get_response_def] i ad(2)]
  have res: "rirb_cmds (fst s1) addr = 0 \<longrightarrow> r = rirb_res (fst s1) addr"
    "rirb_cmds (fst s1) addr \<noteq> 0 \<longrightarrow> r = - 1 \<and> rirb_pending (fst s1) = []"
    by simp_all
  from i1 have i0: "ring_inv0 (rirb_pending (fst s1)) (rirb_cmds (fst s1)) (rirb_res (fst s1)) (snd s1)"
    by (simp add: ring_inv_def)
  show ?thesis
  proof (cases "rirb_cmds (fst s1) addr = 0")
    case True
    with in_flight_tag[OF i0 ad(1)] have "of_nat addr \<notin> snd ` set (rirb_pending (fst s1))" by auto
    with i0 ad(1) have "cmd_answered (rirb_cmds (fst s1)) (rirb_res (fst s1)) (snd s1) addr \<or>
        cmd_awaited (rirb_cmds (fst s1)) (snd s1) addr"
      by (simp add: ring_inv0_def)
    with True t1 res(1) show ?thesis
      by (auto simp: cmd_answered_def cmd_awaited_def cmd_taken_def)
  next
    case False
    with res(2) have "r = - 1" "rirb_pending (fst s1) = []" by simp_all
    with i0 ad(1) have "cmd_answered (rirb_cmds (fst s1)) (rirb_res (fst s1)) (snd s1) addr \<or>
        cmd_awaited (rirb_cmds (fst s1)) (snd s1) addr"
      by (simp add: ring_inv0_def)
    with False \<open>r = - 1\<close> show ?thesis
      by (auto simp: cmd_answered_def cmd_awaited_def)
  qed
qed

text \<open>
  A command to codec address 3 is sent, the codec answers \<open>0x10EC0880\<close>, and the receive
  sees one RIRB interrupt: it returns the codec's answer.
\<close>

lemma ex_round_trip_sent:
  "ring_run ex_round_trip_ops (ring_init ex_azx) =
     (ex_azx\<lparr>corb_buf := (\<lambda>_. 0)(1 := 0x300F0000), rirb_buf := (\<lambda>_. 0)(2 := 0x10EC0880, 3 := 3),
             rirb_cmds := (\<lambda>_. 0)(3 := 1), CORBWP := 1, RIRBWP := 1\<rparr>,
      \<lparr>owed = (\<lambda>_. 0), produced = (\<lambda>_. None)(3 := Some 0x10EC0880)\<rparr>)"
  by (simp add: ex_round_trip_ops_def ring_run_def ring_init_def ex_azx_def azx_init_cmd_io_def
        azx_corb_send_cmd_def corb_fetch_def rirb_deliver_def azx_readb_def Let_def
        azx_command_addr_def AZX_MAX_CODECS_def ICH6_MAX_CORB_ENTRIES_def fun_upd_idem)

lemma ex_round_trip_received:
  "azx_rirb_get_response 3 [[[Rirb_Interrupt]]] True (ring_run ex_round_trip_ops (ring_init ex_azx)) =
     ((ex_azx\<lparr>corb_buf := (\<lambda>_. 0)(1 := 0x300F0000), rirb_buf := (\<lambda>_. 0)(2 := 0x10EC0880, 3 := 3),
             rirb_rp := 1, rirb_wp := 1, rirb_res := (\<lambda>_. 0)(3 := 0x10EC0880),
             CORBWP := 1, RIRBWP := 1\<rparr>,
      \<lparr>owed = (\<lambda>_. 0), produced = (\<lambda>_. None)(3 := Some 0x10EC0880)\<rparr>), 0x10EC0880)"
  unfolding ex_round_trip_sent
  by (simp add: azx_rirb_get_response_def rirb_get_response_again.simps ex_azx_def
        rirb_pass_def hw_steps_def azx_update_rirb_def azx_readb_def Let_def
        rirb_drain.simps rirb_entry_def ICH6_MAX_RIRB_ENTRIES_def ICH6_RIRB_EX_UNSOL_EV_def
        azx_response_addr_def AZX_MAX_CODECS_def fun_upd_idem)

lemma ex_round_trip_disciplined:
  "disciplined (ex_round_trip_ops @ [Ring_Receive 3 [[[Rirb_Interrupt]]] True]) (ring_init ex_azx)"
  by (simp add: ex_round_trip_ops_def ring_init_def ex_azx_def azx_init_cmd_io_def
        azx_corb_send_cmd_def corb_fetch_def rirb_deliver_def azx_readb_def Let_def
        azx_command_addr_def AZX_MAX_CODECS_def ICH6_MAX_CORB_ENTRIES_def)

theorem ring_round_trip_witness:
  "disciplined (ex_round_trip_ops @ [Ring_Receive 3 [[[Rirb_Interrupt]]] True]) (ring_init ex_azx) \<and>
   produced (snd (fst (azx_rirb_get_response 3 [[[Rirb_Interrupt]]] True
                        (ring_run ex_round_trip_ops (ring_init ex_azx))))) 3 = Some 0x10EC0880 \<and>
   snd (azx_rirb_get_response 3 [[[Rirb_Interrupt]]] True
          (ring_run ex_round_trip_ops (ring_init ex_azx))) = 0x10EC0880"
proof -
  have h2: "Ring_Send 0x300F0000 \<in> set ex_round_trip_ops" by (simp add: ex_round_trip_ops_def)
  have h3: "azx_command_addr 0x300F0000 = 3"
    by (simp add: azx_command_addr_def AZX_MAX_CODECS_def Let_def)
  show ?thesis
    using ring_round_trip[OF ex_round_trip_disciplined h2 h3 ex_round_trip_received]
      ex_round_trip_disciplined
    by (simp add: ex_round_trip_received)
qed

end
